theory Spec2Isabelle
  imports Main
begin

section \<open>The bounded memoizing cache\<close>

text \<open>
  Modelled from the spec: the class \<^verbatim>\<open>Cache\<close> of \<^verbatim>\<open>ember-metal\<close>, which \<^verbatim>\<open>string.js\<close>
  imports and instantiates six times, \<^verbatim>\<open>new Cache(1000, func)\<close>, one per transform. Its
  state is a fixed capacity, the resident entries in insertion order (oldest first), and
  the number of misses recorded so far.
\<close>

record ('k, 'v) cache =
  capacity :: nat
  entries :: "('k \<times> 'v) list"
  misses :: nat

definition new_cache :: "nat \<Rightarrow> ('k, 'v) cache" where
  \<comment> \<open>Modelled from the spec: the constructor of Cache (ember-metal), "constructed with a
      fixed maximum entry count", empty at the start.\<close>
  "new_cache K = \<lparr>capacity = K, entries = [], misses = 0\<rparr>"

definition cache_size :: "('k, 'v) cache \<Rightarrow> nat" where
  \<comment> \<open>Modelled from the spec: the attribute size of Cache (ember-metal), the "current
      entry count".\<close>
  "cache_size c = length (entries c)"

definition cache_keys :: "('k, 'v) cache \<Rightarrow> 'k list" where
  \<comment> \<open>the resident keys, oldest first\<close>
  "cache_keys c = map fst (entries c)"

definition cache_lookup :: "('k, 'v) cache \<Rightarrow> 'k \<Rightarrow> 'v option" where
  \<comment> \<open>Modelled from the spec: the lookup step of Cache.get (ember-metal), "hit: return
      stored value".\<close>
  "cache_lookup c k = map_of (entries c) k"

definition cache_store :: "('k, 'v) cache \<Rightarrow> 'k \<Rightarrow> 'v \<Rightarrow> ('k, 'v) cache" where
  \<comment> \<open>Modelled from the spec: the miss path of Cache.get (ember-metal), "When an insertion
      would exceed capacity, evict the oldest inserted entry still resident
      (first-in-first-out) before inserting the new one"; the miss is recorded.\<close>
  "cache_store c k v =
     c\<lparr>entries := (if capacity c \<le> length (entries c) then tl (entries c) else entries c)
                    @ [(k, v)],
       misses := misses c + 1\<rparr>"

definition cache_get :: "('k \<Rightarrow> 'v) \<Rightarrow> ('k, 'v) cache \<Rightarrow> 'k \<Rightarrow> 'v \<times> ('k, 'v) cache" where
  \<comment> \<open>Modelled from the spec: Cache.get (ember-metal), "hit: return stored value; miss:
      compute via transform, store, return"; a hit has no effect on the state.\<close>
  "cache_get func c k =
     (case cache_lookup c k of
        Some v \<Rightarrow> (v, c)
      | None \<Rightarrow> (let v = func k in (v, cache_store c k v)))"

definition cache_run :: "('k \<Rightarrow> 'v) \<Rightarrow> ('k, 'v) cache \<Rightarrow> 'k list \<Rightarrow> ('k, 'v) cache" where
  \<comment> \<open>The state after a sequence of calls of get, the results dropped.\<close>
  "cache_run func c ks = foldl (\<lambda>c k. snd (cache_get func c k)) c ks"

section \<open>Strings, character classes and the host's case conversion\<close>

text \<open>
  A JavaScript string is a sequence of UTF-16 code units; a code unit is modelled by its
  number. \<open>js\<close> turns an ASCII literal into such a string.
\<close>

type_synonym jstr = "nat list"

definition cu :: "char \<Rightarrow> nat" where
  "cu c = of_char c"

definition js :: "string \<Rightarrow> jstr" where
  "js s = map cu s"

definition is_az :: "nat \<Rightarrow> bool" where
  \<comment> \<open>the class \<^verbatim>\<open>[a-z]\<close>\<close>
  "is_az c = (cu CHR ''a'' \<le> c \<and> c \<le> cu CHR ''z'')"

definition is_AZ :: "nat \<Rightarrow> bool" where
  \<comment> \<open>the class \<^verbatim>\<open>[A-Z]\<close>\<close>
  "is_AZ c = (cu CHR ''A'' \<le> c \<and> c \<le> cu CHR ''Z'')"

definition is_digit :: "nat \<Rightarrow> bool" where
  \<comment> \<open>the classes \<^verbatim>\<open>\d\<close> and \<^verbatim>\<open>[0-9]\<close>\<close>
  "is_digit c = (cu CHR ''0'' \<le> c \<and> c \<le> cu CHR ''9'')"

definition is_line_terminator :: "nat \<Rightarrow> bool" where
  \<comment> \<open>LF, CR, U+2028, U+2029: what \<^verbatim>\<open>.\<close> does not match\<close>
  "is_line_terminator c = (c = 0x0A \<or> c = 0x0D \<or> c = 0x2028 \<or> c = 0x2029)"

definition is_space :: "nat \<Rightarrow> bool" where
  \<comment> \<open>the class \<^verbatim>\<open>\s\<close>: ECMAScript's WhiteSpace and LineTerminator\<close>
  "is_space c =
     (c = 0x09 \<or> c = 0x0B \<or> c = 0x0C \<or> c = 0x20 \<or> c = 0xA0 \<or> c = 0x1680
      \<or> (0x2000 \<le> c \<and> c \<le> 0x200A) \<or> c = 0x202F \<or> c = 0x205F \<or> c = 0x3000
      \<or> c = 0xFEFF \<or> is_line_terminator c)"

definition is_dot :: "nat \<Rightarrow> bool" where
  \<comment> \<open>the atom \<^verbatim>\<open>.\<close> (no \<^verbatim>\<open>s\<close> flag, no \<^verbatim>\<open>u\<close> flag): one code unit, no line
      terminator\<close>
  "is_dot c = (\<not> is_line_terminator c)"

definition is_separator :: "nat \<Rightarrow> bool" where
  \<comment> \<open>the alternative \<^verbatim>\<open>(\-|\_|\.|\s)\<close> of the camelize and classify patterns\<close>
  "is_separator c = (c = cu CHR ''-'' \<or> c = cu CHR ''_'' \<or> c = cu CHR ''.'' \<or> is_space c)"

text \<open>
  \<^verbatim>\<open>toUpperCase\<close> and \<^verbatim>\<open>toLowerCase\<close> belong to the host, and what they do outside
  ASCII follows the Unicode tables the host ships.

  Uppercasing goes code point by code point, whatever the neighbours are: the string is
  read as code points (a high surrogate with the low surrogate behind it is one code
  point, any other code unit is one by itself), and each code point is replaced by its
  uppercase form, which may be several code units (U+00DF becomes \<^verbatim>\<open>SS\<close>). The ASCII
  rows are fixed; the form of any other code point is the host's, \<open>upper_ext\<close>.

  Lowercasing does not go code point by code point: the form of a capital sigma depends
  on the letters around it. So the lowercase form of a string that has a code unit
  outside ASCII is taken from the host as a whole, \<open>lower_ext\<close>; in a string of ASCII code
  units the capitals \<^verbatim>\<open>A-Z\<close> become \<^verbatim>\<open>a-z\<close>.
\<close>

definition is_high_surrogate :: "nat \<Rightarrow> bool" where
  "is_high_surrogate c = (0xD800 \<le> c \<and> c \<le> 0xDBFF)"

definition is_low_surrogate :: "nat \<Rightarrow> bool" where
  "is_low_surrogate c = (0xDC00 \<le> c \<and> c \<le> 0xDFFF)"

fun code_points :: "jstr \<Rightarrow> jstr list" where
  "code_points (a # b # r) =
     (if is_high_surrogate a \<and> is_low_surrogate b then [a, b] # code_points r
      else [a] # code_points (b # r))"
| "code_points [a] = [[a]]"
| "code_points [] = []"

record host =
  upper_ext :: "jstr \<Rightarrow> jstr"
  lower_ext :: "jstr \<Rightarrow> jstr"

definition ascii_upper :: "nat \<Rightarrow> nat" where
  "ascii_upper c = (if is_az c then c - 0x20 else c)"

definition ascii_lower :: "nat \<Rightarrow> nat" where
  "ascii_lower c = (if is_AZ c then c + 0x20 else c)"

definition is_ascii :: "jstr \<Rightarrow> bool" where
  "is_ascii s = list_all (\<lambda>c. c < 0x80) s"

definition upper_cu :: "host \<Rightarrow> nat \<Rightarrow> jstr" where
  \<comment> \<open>the uppercase form of a code point that is one code unit\<close>
  "upper_cu h c = (if c < 0x80 then [ascii_upper c] else upper_ext h [c])"

definition upper_cp :: "host \<Rightarrow> jstr \<Rightarrow> jstr" where
  \<comment> \<open>the uppercase form of a code point\<close>
  "upper_cp h cp = (case cp of [c] \<Rightarrow> upper_cu h c | _ \<Rightarrow> upper_ext h cp)"

definition toUpperCase :: "host \<Rightarrow> jstr \<Rightarrow> jstr" where
  "toUpperCase h s = concat (map (upper_cp h) (code_points s))"

definition toLowerCase :: "host \<Rightarrow> jstr \<Rightarrow> jstr" where
  "toLowerCase h s = (if is_ascii s then map ascii_lower s else lower_ext h s)"

section \<open>Regular expressions: matching at a position, replace and split\<close>

text \<open>
  A pattern of the source is modelled by its matcher at one position: given whether the
  position is the start of the string (for \<^verbatim>\<open>^\<close>) and the input from the position on,
  it returns the length of the match and the captures, or \<open>None\<close>. Quantifiers are
  greedy; in each pattern below the greedy choice is also the one the backtracking
  matcher ends with, since whatever follows the quantifier is optional or absent.
\<close>

type_synonym 'g regexp = "bool \<Rightarrow> jstr \<Rightarrow> (nat \<times> 'g) option"

datatype 'g piece = Skip nat | Hit jstr 'g

text \<open>
  The scan of a global pattern (flag \<^verbatim>\<open>g\<close>) over a string, left to right: a code unit
  where no match starts is skipped, a match is recorded and the scan goes on behind it;
  behind an empty match it advances by one code unit.
\<close>

function scan :: "'g regexp \<Rightarrow> bool \<Rightarrow> jstr \<Rightarrow> 'g piece list" where
  "scan re st [] = (case re st [] of None \<Rightarrow> [] | Some (n, g) \<Rightarrow> [Hit [] g])"
| "scan re st (c # cs) =
     (case re st (c # cs) of
        None \<Rightarrow> Skip c # scan re False cs
      | Some (n, g) \<Rightarrow>
          if n = 0 then Hit [] g # Skip c # scan re False cs
          else Hit (take n (c # cs)) g # scan re False (drop n (c # cs)))"
  by pat_completeness auto
termination
  by (relation "measure (\<lambda>(re, st, s). length s)") auto

definition emit :: "(jstr \<Rightarrow> 'g \<Rightarrow> jstr) \<Rightarrow> 'g piece \<Rightarrow> jstr" where
  \<comment> \<open>what a piece of the scan contributes to the result: a skipped code unit itself, a
      match what the callback returns for it\<close>
  "emit fn p = (case p of Skip c \<Rightarrow> [c] | Hit m g \<Rightarrow> fn m g)"

definition replace_all_from ::
  "'g regexp \<Rightarrow> (jstr \<Rightarrow> 'g \<Rightarrow> jstr) \<Rightarrow> bool \<Rightarrow> jstr \<Rightarrow> jstr" where
  \<comment> \<open>the result of a global replace from one position on\<close>
  "replace_all_from re fn st s = concat (map (emit fn) (scan re st s))"

definition replace_g :: "'g regexp \<Rightarrow> (jstr \<Rightarrow> 'g \<Rightarrow> jstr) \<Rightarrow> jstr \<Rightarrow> jstr" where
  \<comment> \<open>\<^verbatim>\<open>str.replace(re, fn)\<close> for a global pattern\<close>
  "replace_g re fn str = replace_all_from re fn True str"

fun replace_from :: "'g regexp \<Rightarrow> (jstr \<Rightarrow> 'g \<Rightarrow> jstr) \<Rightarrow> bool \<Rightarrow> jstr \<Rightarrow> jstr" where
  "replace_from re fn st [] = (case re st [] of None \<Rightarrow> [] | Some (n, g) \<Rightarrow> fn [] g)"
| "replace_from re fn st (c # cs) =
     (case re st (c # cs) of
        None \<Rightarrow> c # replace_from re fn False cs
      | Some (n, g) \<Rightarrow> fn (take n (c # cs)) g @ drop n (c # cs))"

definition replace_1 :: "'g regexp \<Rightarrow> (jstr \<Rightarrow> 'g \<Rightarrow> jstr) \<Rightarrow> jstr \<Rightarrow> jstr" where
  \<comment> \<open>\<^verbatim>\<open>str.replace(re, fn)\<close> for a pattern without the flag \<^verbatim>\<open>g\<close>: the first match
      only\<close>
  "replace_1 re fn str = replace_from re fn True str"

section \<open>The patterns of \<^verbatim>\<open>string.js\<close>\<close>

definition run_then_char ::
  "(nat \<Rightarrow> bool) \<Rightarrow> jstr \<Rightarrow> (nat \<times> jstr \<times> jstr option) option" where
  \<comment> \<open>\<^verbatim>\<open>(sep)+(.)?\<close> at the head of the input: the longest run of separators, at least
      one, then one more code unit if there is one that \<^verbatim>\<open>.\<close> matches. The captures are
      the last separator and the code unit (\<open>None\<close> for \<^verbatim>\<open>undefined\<close>).\<close>
  "run_then_char sep s =
     (let seps = takeWhile sep s; rest = dropWhile sep s in
      if seps = [] then None
      else (case rest of
              [] \<Rightarrow> Some (length seps, [last seps], None)
            | c # _ \<Rightarrow>
                if is_dot c then Some (length seps + 1, [last seps], Some [c])
                else Some (length seps, [last seps], None)))"

definition start_or_after ::
  "(nat \<Rightarrow> bool) \<Rightarrow> (nat \<Rightarrow> bool) \<Rightarrow> (jstr \<times> jstr) regexp" where
  \<comment> \<open>\<^verbatim>\<open>(^|d)(c)\<close> for a class \<open>d\<close> of delimiters and a class \<open>c\<close>: the first alternative
      is tried first, the second if the first fails.\<close>
  "start_or_after d cl st s =
     (case s of
        [] \<Rightarrow> None
      | a # r \<Rightarrow>
          if st \<and> cl a then Some (1, [], [a])
          else if d a then
            (case r of [] \<Rightarrow> None | b # _ \<Rightarrow> if cl b then Some (2, [a], [b]) else None)
          else None)"

definition STRING_DASHERIZE_REGEXP :: "unit regexp" where
  \<comment> \<open>\<^verbatim>\<open>/[ _]/g\<close>\<close>
  "STRING_DASHERIZE_REGEXP st s =
     (case s of [] \<Rightarrow> None
      | c # _ \<Rightarrow> if c = cu CHR '' '' \<or> c = cu CHR ''_'' then Some (1, ()) else None)"

definition STRING_CAMELIZE_REGEXP_1 :: "(jstr \<times> jstr option) regexp" where
  \<comment> \<open>\<^verbatim>\<open>/(\-|\_|\.|\s)+(.)?/g\<close>\<close>
  "STRING_CAMELIZE_REGEXP_1 st s = run_then_char is_separator s"

definition STRING_CAMELIZE_REGEXP_2 :: "(jstr \<times> jstr) regexp" where
  \<comment> \<open>\<^verbatim>\<open>/(^|\/)([A-Z])/g\<close>\<close>
  "STRING_CAMELIZE_REGEXP_2 = start_or_after (\<lambda>c. c = cu CHR ''/'') is_AZ"

definition STRING_CLASSIFY_REGEXP_1 :: "(jstr \<times> jstr option) regexp" where
  \<comment> \<open>\<^verbatim>\<open>/^(\-|_)+(.)?/\<close>\<close>
  "STRING_CLASSIFY_REGEXP_1 st s =
     (if st then run_then_char (\<lambda>c. c = cu CHR ''-'' \<or> c = cu CHR ''_'') s else None)"

definition STRING_CLASSIFY_REGEXP_2 :: "(jstr \<times> jstr \<times> jstr option) regexp" where
  \<comment> \<open>\<^verbatim>\<open>/(.)(\-|\_|\.|\s)+(.)?/g\<close>\<close>
  "STRING_CLASSIFY_REGEXP_2 st s =
     (case s of [] \<Rightarrow> None
      | i # r \<Rightarrow>
          if is_dot i then
            (case run_then_char is_separator r of
               None \<Rightarrow> None
             | Some (n, sep, chr) \<Rightarrow> Some (n + 1, [i], sep, chr))
          else None)"

definition STRING_CLASSIFY_REGEXP_3 :: "(jstr \<times> jstr) regexp" where
  \<comment> \<open>\<^verbatim>\<open>/(^|\/|\.)([a-z])/g\<close>\<close>
  "STRING_CLASSIFY_REGEXP_3 =
     start_or_after (\<lambda>c. c = cu CHR ''/'' \<or> c = cu CHR ''.'') is_az"

definition STRING_UNDERSCORE_REGEXP_1 :: "(jstr \<times> jstr) regexp" where
  \<comment> \<open>\<^verbatim>\<open>/([a-z\d])([A-Z]+)/g\<close>\<close>
  "STRING_UNDERSCORE_REGEXP_1 st s =
     (case s of [] \<Rightarrow> None
      | a # r \<Rightarrow>
          (let ups = takeWhile is_AZ r in
           if (is_az a \<or> is_digit a) \<and> ups \<noteq> [] then Some (1 + length ups, [a], ups)
           else None))"

definition STRING_UNDERSCORE_REGEXP_2 :: "unit regexp" where
  \<comment> \<open>\<^verbatim>\<open>/\-|\s+/g\<close>\<close>
  "STRING_UNDERSCORE_REGEXP_2 st s =
     (case s of [] \<Rightarrow> None
      | c # _ \<Rightarrow>
          if c = cu CHR ''-'' then Some (1, ())
          else if is_space c then Some (length (takeWhile is_space s), ())
          else None)"

definition is_capitalizable :: "nat \<Rightarrow> bool" where
  \<comment> \<open>the class \<^verbatim>\<open>[a-z\u00C0-\u024F]\<close>\<close>
  "is_capitalizable c = (is_az c \<or> (0xC0 \<le> c \<and> c \<le> 0x24F))"

definition STRING_CAPITALIZE_REGEXP :: "(jstr \<times> jstr) regexp" where
  \<comment> \<open>\<^verbatim>\<open>/(^|\/)([a-z\u00C0-\u024F])/g\<close>\<close>
  "STRING_CAPITALIZE_REGEXP = start_or_after (\<lambda>c. c = cu CHR ''/'') is_capitalizable"

definition STRING_DECAMELIZE_REGEXP :: "(jstr \<times> jstr) regexp" where
  \<comment> \<open>\<^verbatim>\<open>/([a-z\d])([A-Z])/g\<close>\<close>
  "STRING_DECAMELIZE_REGEXP st s =
     (case s of
        a # b # _ \<Rightarrow>
          if (is_az a \<or> is_digit a) \<and> is_AZ b then Some (2, [a], [b]) else None
      | _ \<Rightarrow> None)"

section \<open>The six transforms\<close>

text \<open>
  Each transform is the function handed to the constructor of its cache. The
  replacement string \<^verbatim>\<open>'$1_$2'\<close> is the callback that puts an underscore between the
  two captures.
\<close>

definition decamelize_func :: "host \<Rightarrow> jstr \<Rightarrow> jstr" where
  "decamelize_func h str =
     toLowerCase h
       (replace_g STRING_DECAMELIZE_REGEXP (\<lambda>m (g1, g2). g1 @ js ''_'' @ g2) str)"

definition camelize_func :: "host \<Rightarrow> jstr \<Rightarrow> jstr" where
  "camelize_func h key =
     replace_g STRING_CAMELIZE_REGEXP_2 (\<lambda>m g. toLowerCase h m)
       (replace_g STRING_CAMELIZE_REGEXP_1
          (\<lambda>m (separator, chr). case chr of Some ch \<Rightarrow> toUpperCase h ch | None \<Rightarrow> [])
          key)"

fun split_on :: "nat \<Rightarrow> jstr \<Rightarrow> jstr list" where
  \<comment> \<open>\<^verbatim>\<open>str.split('/')\<close>: the pieces between the occurrences of one code unit; the empty
      string gives one empty piece\<close>
  "split_on d [] = [[]]"
| "split_on d (c # cs) =
     (if c = d then [] # split_on d cs
      else (case split_on d cs of p # ps \<Rightarrow> (c # p) # ps | [] \<Rightarrow> [[c]]))"

fun join :: "jstr \<Rightarrow> jstr list \<Rightarrow> jstr" where
  \<comment> \<open>\<^verbatim>\<open>parts.join(sep)\<close>\<close>
  "join sep [] = []"
| "join sep [p] = p"
| "join sep (p # q # ps) = p @ sep @ join sep (q # ps)"

definition classify_part :: "host \<Rightarrow> jstr \<Rightarrow> jstr" where
  \<comment> \<open>the body of the loop over \<^verbatim>\<open>parts\<close>, with \<^verbatim>\<open>replace1\<close> and \<^verbatim>\<open>replace2\<close>\<close>
  "classify_part h part =
     replace_g STRING_CLASSIFY_REGEXP_2
       (\<lambda>m (initialChar, separator, chr).
          initialChar @ (case chr of Some ch \<Rightarrow> toUpperCase h ch | None \<Rightarrow> []))
       (replace_1 STRING_CLASSIFY_REGEXP_1
          (\<lambda>m (separator, chr).
             case chr of Some ch \<Rightarrow> js ''_'' @ toUpperCase h ch | None \<Rightarrow> [])
          part)"

definition classify_func :: "host \<Rightarrow> jstr \<Rightarrow> jstr" where
  "classify_func h str =
     replace_g STRING_CLASSIFY_REGEXP_3 (\<lambda>m g. toUpperCase h m)
       (join (js ''/'') (map (classify_part h) (split_on (cu CHR ''/'') str)))"

definition underscore_func :: "host \<Rightarrow> jstr \<Rightarrow> jstr" where
  "underscore_func h str =
     toLowerCase h
       (replace_g STRING_UNDERSCORE_REGEXP_2 (\<lambda>m g. js ''_'')
          (replace_g STRING_UNDERSCORE_REGEXP_1 (\<lambda>m (g1, g2). g1 @ js ''_'' @ g2) str))"

definition capitalize_func :: "host \<Rightarrow> jstr \<Rightarrow> jstr" where
  "capitalize_func h str =
     replace_g STRING_CAPITALIZE_REGEXP (\<lambda>m g. toUpperCase h m) str"

section \<open>The cached functions\<close>

text \<open>
  The module holds six caches, each built by \<^verbatim>\<open>new Cache(1000, func)\<close>. A call of an
  exported function takes the state of the caches and returns it updated. The function
  of \<^verbatim>\<open>STRING_DASHERIZE_CACHE\<close> calls the exported \<^verbatim>\<open>decamelize\<close>, so a miss of
  \<^verbatim>\<open>dasherize\<close> goes through \<^verbatim>\<open>DECAMELIZE_CACHE\<close> as well.
\<close>

record caches =
  STRING_DASHERIZE_CACHE :: "(jstr, jstr) cache"
  CAMELIZE_CACHE :: "(jstr, jstr) cache"
  CLASSIFY_CACHE :: "(jstr, jstr) cache"
  UNDERSCORE_CACHE :: "(jstr, jstr) cache"
  CAPITALIZE_CACHE :: "(jstr, jstr) cache"
  DECAMELIZE_CACHE :: "(jstr, jstr) cache"

definition initial_caches :: caches where
  "initial_caches =
     \<lparr>STRING_DASHERIZE_CACHE = new_cache 1000, CAMELIZE_CACHE = new_cache 1000,
      CLASSIFY_CACHE = new_cache 1000, UNDERSCORE_CACHE = new_cache 1000,
      CAPITALIZE_CACHE = new_cache 1000, DECAMELIZE_CACHE = new_cache 1000\<rparr>"

definition decamelize :: "host \<Rightarrow> caches \<Rightarrow> jstr \<Rightarrow> jstr \<times> caches" where
  "decamelize h st str =
     (let (v, c) = cache_get (decamelize_func h) (DECAMELIZE_CACHE st) str
      in (v, st\<lparr>DECAMELIZE_CACHE := c\<rparr>))"

definition dasherize_func :: "host \<Rightarrow> caches \<Rightarrow> jstr \<Rightarrow> jstr \<times> caches" where
  \<comment> \<open>\<^verbatim>\<open>key => decamelize(key).replace(STRING_DASHERIZE_REGEXP, '-')\<close>\<close>
  "dasherize_func h st key =
     (let (d, st') = decamelize h st key
      in (replace_g STRING_DASHERIZE_REGEXP (\<lambda>m g. js ''-'') d, st'))"

definition dasherize :: "host \<Rightarrow> caches \<Rightarrow> jstr \<Rightarrow> jstr \<times> caches" where
  "dasherize h st str =
     (case cache_lookup (STRING_DASHERIZE_CACHE st) str of
        Some v \<Rightarrow> (v, st)
      | None \<Rightarrow>
          (let (v, st') = dasherize_func h st str
           in (v, st'\<lparr>STRING_DASHERIZE_CACHE :=
                        cache_store (STRING_DASHERIZE_CACHE st') str v\<rparr>)))"

definition camelize :: "host \<Rightarrow> caches \<Rightarrow> jstr \<Rightarrow> jstr \<times> caches" where
  "camelize h st str =
     (let (v, c) = cache_get (camelize_func h) (CAMELIZE_CACHE st) str
      in (v, st\<lparr>CAMELIZE_CACHE := c\<rparr>))"

definition classify :: "host \<Rightarrow> caches \<Rightarrow> jstr \<Rightarrow> jstr \<times> caches" where
  "classify h st str =
     (let (v, c) = cache_get (classify_func h) (CLASSIFY_CACHE st) str
      in (v, st\<lparr>CLASSIFY_CACHE := c\<rparr>))"

definition underscore :: "host \<Rightarrow> caches \<Rightarrow> jstr \<Rightarrow> jstr \<times> caches" where
  "underscore h st str =
     (let (v, c) = cache_get (underscore_func h) (UNDERSCORE_CACHE st) str
      in (v, st\<lparr>UNDERSCORE_CACHE := c\<rparr>))"

definition capitalize :: "host \<Rightarrow> caches \<Rightarrow> jstr \<Rightarrow> jstr \<times> caches" where
  "capitalize h st str =
     (let (v, c) = cache_get (capitalize_func h) (CAPITALIZE_CACHE st) str
      in (v, st\<lparr>CAPITALIZE_CACHE := c\<rparr>))"

text \<open>
  What \<^verbatim>\<open>dasherize\<close> returns for a key that is not resident, as a function of the key
  alone.
\<close>

definition dasherize_pure :: "host \<Rightarrow> jstr \<Rightarrow> jstr" where
  "dasherize_pure h key =
     replace_g STRING_DASHERIZE_REGEXP (\<lambda>m g. js ''-'') (decamelize_func h key)"

text \<open>A call of one of the six exported functions, and a sequence of such calls.\<close>

datatype call =
  Decamelize jstr | Dasherize jstr | Camelize jstr | Classify jstr | Underscore jstr
  | Capitalize jstr

fun exec :: "host \<Rightarrow> caches \<Rightarrow> call \<Rightarrow> jstr \<times> caches" where
  "exec h st (Decamelize s) = decamelize h st s"
| "exec h st (Dasherize s) = dasherize h st s"
| "exec h st (Camelize s) = camelize h st s"
| "exec h st (Classify s) = classify h st s"
| "exec h st (Underscore s) = underscore h st s"
| "exec h st (Capitalize s) = capitalize h st s"

fun transform :: "host \<Rightarrow> call \<Rightarrow> jstr" where
  "transform h (Decamelize s) = decamelize_func h s"
| "transform h (Dasherize s) = dasherize_pure h s"
| "transform h (Camelize s) = camelize_func h s"
| "transform h (Classify s) = classify_func h s"
| "transform h (Underscore s) = underscore_func h s"
| "transform h (Capitalize s) = capitalize_func h s"

definition exec_all :: "host \<Rightarrow> caches \<Rightarrow> call list \<Rightarrow> caches" where
  "exec_all h st calls = foldl (\<lambda>st c. snd (exec h st c)) st calls"


section \<open>Word splitting\<close>

text \<open>
  \<^verbatim>\<open>str.split(re)\<close> for a pattern without captures and without a limit. The piece
  collected since the last separator is \<open>acc\<close>; a match that is empty and sits where
  the last separator ended is passed over. What is left at the end of the input is
  pushed as the last piece, also when it is empty.
\<close>

function split_loop :: "'g regexp \<Rightarrow> jstr \<Rightarrow> bool \<Rightarrow> jstr \<Rightarrow> jstr list" where
  "split_loop re acc st [] = [acc]"
| "split_loop re acc st (c # cs) =
     (case re st (c # cs) of
        None \<Rightarrow> split_loop re (acc @ [c]) False cs
      | Some (n, g) \<Rightarrow>
          if n = 0 then
            (if acc = [] then split_loop re [c] False cs
             else acc # split_loop re [c] False cs)
          else acc # split_loop re [] False (drop n (c # cs)))"
  by pat_completeness auto
termination
  by (relation "measure (\<lambda>(re, acc, st, s). length s)") auto

definition split_re :: "'g regexp \<Rightarrow> jstr \<Rightarrow> jstr list" where
  "split_re re str =
     (if str = [] then (case re True [] of None \<Rightarrow> [[]] | Some m \<Rightarrow> [])
      else split_loop re [] True str)"

definition whitespace_run :: "unit regexp" where
  \<comment> \<open>\<^verbatim>\<open>/\s+/\<close>\<close>
  "whitespace_run st s =
     (let ws = takeWhile is_space s in if ws = [] then None else Some (length ws, ()))"

definition w :: "jstr \<Rightarrow> jstr list" where
  "w str = split_re whitespace_run str"

section \<open>Formatting and localisation\<close>

text \<open>
  The values a caller may pass: \<^verbatim>\<open>null\<close>, \<^verbatim>\<open>undefined\<close>, a string, an array with its
  elements (an element never set reads as \<^verbatim>\<open>undefined\<close>), or any other value. \<open>rest\<close> below stands for the arguments of a call that follow \<^verbatim>\<open>str\<close>, so
  that \<^verbatim>\<open>arguments.length\<close> is \<open>length rest + 1\<close>.
\<close>

datatype 'o jsval = Null | Undefined | Str jstr | Arr "'o jsval list" | Other 'o

fun isArray :: "'o jsval \<Rightarrow> bool" where
  \<comment> \<open>Modelled from the spec: isArray (the utils of ember-runtime), which tells an "ordered
      sequence of substitution values" from any other value.\<close>
  "isArray (Arr xs) = True"
| "isArray v = False"

definition inspect :: "('o jsval \<Rightarrow> jstr) \<Rightarrow> 'o jsval \<Rightarrow> jstr" where
  \<comment> \<open>Modelled from the spec: inspect (ember-utils), the "generic value-to-display-string
      conversion" of an argument; the examples of the spec show a string as its own
      text, and the display of any other value is the parameter \<open>disp\<close>.\<close>
  "inspect disp v = (case v of Str s \<Rightarrow> s | _ \<Rightarrow> disp v)"

definition first_arg :: "'o jsval list \<Rightarrow> 'o jsval" where
  \<comment> \<open>the parameter \<^verbatim>\<open>formats\<close>: \<^verbatim>\<open>undefined\<close> when the caller gave none\<close>
  "first_arg rest = (case rest of [] \<Rightarrow> Undefined | f # _ \<Rightarrow> f)"

definition cachedFormats :: "'o jsval list \<Rightarrow> 'o jsval list" where
  \<comment> \<open>the array \<^verbatim>\<open>_fmt\<close> reads from: \<^verbatim>\<open>formats\<close> itself, or the arguments after
      \<^verbatim>\<open>str\<close> when \<^verbatim>\<open>formats\<close> is no array or more arguments follow it\<close>
  "cachedFormats rest =
     (if \<not> isArray (first_arg rest) \<or> length rest + 1 > 2 then rest
      else (case first_arg rest of Arr xs \<Rightarrow> xs | _ \<Rightarrow> rest))"

definition element :: "'o jsval list \<Rightarrow> int \<Rightarrow> 'o jsval" where
  \<comment> \<open>\<^verbatim>\<open>cachedFormats[argIndex]\<close>: reading outside the array gives \<^verbatim>\<open>undefined\<close>\<close>
  "element xs i = (if 0 \<le> i \<and> i < int (length xs) then xs ! nat i else Undefined)"

definition parseInt :: "jstr \<Rightarrow> int" where
  \<comment> \<open>\<^verbatim>\<open>parseInt(digits, 10)\<close> on a string of decimal digits. The host rounds a value
      above \<open>2^53\<close> to a double; no array is that long, so the element read there is
      \<^verbatim>\<open>undefined\<close> either way.\<close>
  "parseInt ds = foldl (\<lambda>a d. 10 * a + (int d - int (cu CHR ''0''))) 0 ds"

definition fmt_regexp :: "jstr option regexp" where
  \<comment> \<open>\<^verbatim>\<open>/%@([0-9]+)?/g\<close>\<close>
  "fmt_regexp st s =
     (case s of
        a # b # r \<Rightarrow>
          if a = cu CHR ''%'' \<and> b = cu CHR ''@'' then
            (let ds = takeWhile is_digit r
             in Some (2 + length ds, if ds = [] then None else Some ds))
          else None
      | _ \<Rightarrow> None)"

definition substitute :: "('o jsval \<Rightarrow> jstr) \<Rightarrow> 'o jsval \<Rightarrow> jstr" where
  \<comment> \<open>\<^verbatim>\<open>(s === null) ? '(null)' : (s === undefined) ? '' : inspect(s)\<close>\<close>
  "substitute disp s =
     (case s of Null \<Rightarrow> js ''(null)'' | Undefined \<Rightarrow> [] | _ \<Rightarrow> inspect disp s)"

fun fmt_pieces ::
  "('o jsval \<Rightarrow> jstr) \<Rightarrow> 'o jsval list \<Rightarrow> int \<Rightarrow> jstr option piece list \<Rightarrow> jstr" where
  \<comment> \<open>the callback of \<^verbatim>\<open>_fmt\<close> applied to the matches in order; \<open>idx\<close> is the index for
      the tokens without a number. A capture is truthy when it is a non-empty string.\<close>
  "fmt_pieces disp fs idx [] = []"
| "fmt_pieces disp fs idx (Skip c # ps) = c # fmt_pieces disp fs idx ps"
| "fmt_pieces disp fs idx (Hit m argIndex # ps) =
     (case argIndex of
        Some ds \<Rightarrow>
          if ds \<noteq> [] then
            substitute disp (element fs (parseInt ds - 1)) @ fmt_pieces disp fs idx ps
          else substitute disp (element fs idx) @ fmt_pieces disp fs (idx + 1) ps
      | None \<Rightarrow> substitute disp (element fs idx) @ fmt_pieces disp fs (idx + 1) ps)"

definition fmt :: "('o jsval \<Rightarrow> jstr) \<Rightarrow> jstr \<Rightarrow> 'o jsval list \<Rightarrow> jstr" where
  \<comment> \<open>\<^verbatim>\<open>_fmt(str, ...rest)\<close>\<close>
  "fmt disp str rest = fmt_pieces disp (cachedFormats rest) 0 (scan fmt_regexp True str)"

definition loc ::
  "(jstr \<Rightarrow> jstr option) \<Rightarrow> ('o jsval \<Rightarrow> jstr) \<Rightarrow> jstr \<Rightarrow> 'o jsval list \<Rightarrow> jstr" where
  \<comment> \<open>\<^verbatim>\<open>loc(str, ...rest)\<close>. The registry lookup \<^verbatim>\<open>getString\<close> is a parameter: it
      returns a string or \<^verbatim>\<open>undefined\<close> (\<open>None\<close>). The empty string is falsy, so \<^verbatim>\<open>||\<close>
      takes its right operand for it.\<close>
  "loc getString disp str rest =
     (let formats =
            (if \<not> isArray (first_arg rest) \<or> length rest + 1 > 2 then Arr rest
             else first_arg rest);
          str' = (case getString str of
                    None \<Rightarrow> str
                  | Some t \<Rightarrow> if t \<noteq> [] then t else str)
      in fmt disp str' [formats])"

section \<open>Notions used to state the properties\<close>

text \<open>
  A cache is sound for a function when every resident entry holds the value of the
  function at its key.
\<close>

definition cache_sound :: "('k \<Rightarrow> 'v) \<Rightarrow> ('k, 'v) cache \<Rightarrow> bool" where
  "cache_sound func c = (\<forall>(k, v) \<in> set (entries c). v = func k)"

definition caches_sound :: "host \<Rightarrow> caches \<Rightarrow> bool" where
  "caches_sound h st =
     (cache_sound (dasherize_pure h) (STRING_DASHERIZE_CACHE st)
      \<and> cache_sound (camelize_func h) (CAMELIZE_CACHE st)
      \<and> cache_sound (classify_func h) (CLASSIFY_CACHE st)
      \<and> cache_sound (underscore_func h) (UNDERSCORE_CACHE st)
      \<and> cache_sound (capitalize_func h) (CAPITALIZE_CACHE st)
      \<and> cache_sound (decamelize_func h) (DECAMELIZE_CACHE st))"

text \<open>
  The six caches of the module are bounded when each has capacity 1000 and holds at
  most 1000 entries.
\<close>

definition cache_bounded :: "('k, 'v) cache \<Rightarrow> bool" where
  "cache_bounded c = (capacity c = 1000 \<and> cache_size c \<le> 1000)"

definition caches_bounded :: "caches \<Rightarrow> bool" where
  "caches_bounded st =
     (cache_bounded (STRING_DASHERIZE_CACHE st) \<and> cache_bounded (CAMELIZE_CACHE st)
      \<and> cache_bounded (CLASSIFY_CACHE st) \<and> cache_bounded (UNDERSCORE_CACHE st)
      \<and> cache_bounded (CAPITALIZE_CACHE st) \<and> cache_bounded (DECAMELIZE_CACHE st))"

text \<open>
  The rule of \<^verbatim>\<open>decamelize\<close> in the words of the specification: an underscore between
  a lowercase letter or digit and an uppercase letter that follows it at once.
\<close>

fun insert_underscores :: "jstr \<Rightarrow> jstr" where
  "insert_underscores (a # b # cs) =
     (if (is_az a \<or> is_digit a) \<and> is_AZ b
      then a # cu CHR ''_'' # insert_underscores (b # cs)
      else a # insert_underscores (b # cs))"
| "insert_underscores cs = cs"

text \<open>
  Converting initials: a code unit of the class \<open>cl\<close> is replaced by \<open>f\<close> of it when it is
  the first of the string (\<open>first\<close>) or comes right after a delimiter of the class \<open>d\<close>;
  every other code unit stays.
\<close>

fun initials ::
  "(nat \<Rightarrow> bool) \<Rightarrow> (nat \<Rightarrow> bool) \<Rightarrow> (nat \<Rightarrow> jstr) \<Rightarrow> bool \<Rightarrow> jstr \<Rightarrow> jstr" where
  "initials d cl f first [] = []"
| "initials d cl f first (c # cs) =
     (if first \<and> cl c then f c else [c]) @ initials d cl f (d c) cs"

text \<open>
  A host for concrete runs: the rows of the Latin-1 Supplement block in the Unicode case
  tables, every other code point outside ASCII left as it is.
\<close>

definition latin1_upper :: "jstr \<Rightarrow> jstr" where
  "latin1_upper cp =
     (case cp of
        [c] \<Rightarrow>
          if 0xE0 \<le> c \<and> c \<le> 0xFE \<and> c \<noteq> 0xF7 then [c - 0x20]
          else if c = 0xFF then [0x178]
          else if c = 0xDF then [0x53, 0x53]
          else if c = 0xB5 then [0x39C]
          else cp
      | _ \<Rightarrow> cp)"

definition latin1_lower :: "nat \<Rightarrow> nat" where
  "latin1_lower c =
     (if c < 0x80 then ascii_lower c
      else if 0xC0 \<le> c \<and> c \<le> 0xDE \<and> c \<noteq> 0xD7 then c + 0x20
      else c)"

definition latin1_host :: host where
  "latin1_host = \<lparr>upper_ext = latin1_upper, lower_ext = map latin1_lower\<rparr>"

text \<open>
  What the idempotence of \<^verbatim>\<open>underscore\<close> and \<^verbatim>\<open>dasherize\<close> needs of the host's
  lowercasing: a lowercased string has no ASCII capital; a hyphen or a white space
  character in it was in the string before; lowercasing it again changes nothing; and
  lowercasing a string after its spaces and underscores were turned into hyphens gives
  the same as turning them into hyphens after lowercasing.
\<close>

definition to_hyphens :: "jstr \<Rightarrow> jstr" where
  \<comment> \<open>\<^verbatim>\<open>.replace(STRING_DASHERIZE_REGEXP, '-')\<close>\<close>
  "to_hyphens s = replace_g STRING_DASHERIZE_REGEXP (\<lambda>m g. js ''-'') s"

definition lower_settled :: "host \<Rightarrow> bool" where
  "lower_settled h =
     (\<forall>t. (\<forall>d \<in> set (toLowerCase h t).
             \<not> is_AZ d \<and> (d = cu CHR ''-'' \<or> is_space d \<longrightarrow> d \<in> set t))
          \<and> toLowerCase h (toLowerCase h t) = toLowerCase h t
          \<and> toLowerCase h (to_hyphens t) = to_hyphens (toLowerCase h t))"

text \<open>
  A template as a sequence of tokens: a plain code unit, the token \<^verbatim>\<open>%@\<close>, or the token
  \<^verbatim>\<open>%@N\<close> with its digits. A sequence is well formed when its text reads back as the
  same tokens: no plain \<^verbatim>\<open>%\<close> stands before a plain \<^verbatim>\<open>@\<close>, no plain digit follows a
  token, and the digits of \<^verbatim>\<open>%@N\<close> are digits, at least one.
\<close>

datatype token = Chr nat | Next | Nth jstr

fun token_text :: "token \<Rightarrow> jstr" where
  "token_text (Chr c) = [c]"
| "token_text Next = js ''%@''"
| "token_text (Nth ds) = js ''%@'' @ ds"

definition template :: "token list \<Rightarrow> jstr" where
  "template ts = concat (map token_text ts)"

fun starts_with :: "(nat \<Rightarrow> bool) \<Rightarrow> token list \<Rightarrow> bool" where
  "starts_with P (Chr c # ts) = P c"
| "starts_with P ts = False"

fun well_formed :: "token list \<Rightarrow> bool" where
  "well_formed [] = True"
| "well_formed (Chr c # ts) =
     (\<not> (c = cu CHR ''%'' \<and> starts_with (\<lambda>d. d = cu CHR ''@'') ts) \<and> well_formed ts)"
| "well_formed (Next # ts) = (\<not> starts_with is_digit ts \<and> well_formed ts)"
| "well_formed (Nth ds # ts) =
     (ds \<noteq> [] \<and> list_all is_digit ds \<and> \<not> starts_with is_digit ts \<and> well_formed ts)"

text \<open>
  The result of formatting in the words of the specification: \<^verbatim>\<open>%@\<close> takes the next
  positional argument, \<^verbatim>\<open>%@N\<close> the \<open>N\<close>-th argument counted from one, and the position
  moves on only at \<^verbatim>\<open>%@\<close>. \<open>shown\<close> is the text that stands for an argument, \<open>argument\<close>
  the argument at a position counted from zero, \<^verbatim>\<open>undefined\<close> where there is none.
\<close>

definition shown :: "('o jsval \<Rightarrow> jstr) \<Rightarrow> 'o jsval \<Rightarrow> jstr" where
  "shown disp v =
     (if v = Null then js ''(null)'' else if v = Undefined then [] else inspect disp v)"

definition argument :: "'o jsval list \<Rightarrow> int \<Rightarrow> 'o jsval" where
  "argument args i = (if i < 0 \<or> int (length args) \<le> i then Undefined else args ! nat i)"

fun expand :: "('o jsval \<Rightarrow> jstr) \<Rightarrow> 'o jsval list \<Rightarrow> int \<Rightarrow> token list \<Rightarrow> jstr" where
  "expand disp args pos [] = []"
| "expand disp args pos (Chr c # ts) = c # expand disp args pos ts"
| "expand disp args pos (Next # ts) =
     shown disp (argument args pos) @ expand disp args (pos + 1) ts"
| "expand disp args pos (Nth ds # ts) =
     shown disp (argument args (parseInt ds - 1)) @ expand disp args pos ts"

text \<open>
  Reading any string as tokens: \<^verbatim>\<open>%@\<close> with the digits that follow it is a token, every
  other code unit is plain.
\<close>

function tokenize :: "jstr \<Rightarrow> token list" where
  "tokenize [] = []"
| "tokenize [c] = [Chr c]"
| "tokenize (a # b # r) =
     (if a = cu CHR ''%'' \<and> b = cu CHR ''@'' then
        (if takeWhile is_digit r = [] then Next else Nth (takeWhile is_digit r))
        # tokenize (dropWhile is_digit r)
      else Chr a # tokenize (b # r))"
  by pat_completeness auto
termination
  by (relation "measure length") (auto intro: le_imp_less_Suc length_dropWhile_le le_SucI)

fun plain_text :: "token list \<Rightarrow> jstr" where
  "plain_text [] = []"
| "plain_text (Chr c # ts) = c # plain_text ts"
| "plain_text (Next # ts) = plain_text ts"
| "plain_text (Nth ds # ts) = plain_text ts"

text \<open>
  The two halves of \<^verbatim>\<open>camelize\<close> and \<^verbatim>\<open>classify\<close> that come before the last replace:
  the first replace of \<^verbatim>\<open>camelize\<close> from a position on, and the parts of \<^verbatim>\<open>classify\<close>
  joined again.
\<close>

definition camel1 :: "host \<Rightarrow> bool \<Rightarrow> jstr \<Rightarrow> jstr" where
  "camel1 h st s = replace_all_from STRING_CAMELIZE_REGEXP_1
          (\<lambda>m (separator, chr). case chr of Some ch \<Rightarrow> toUpperCase h ch | None \<Rightarrow> []) st s"

definition classify_parts :: "host \<Rightarrow> jstr \<Rightarrow> jstr" where
  "classify_parts h s = join (js ''/'') (map (classify_part h) (split_on (cu CHR ''/'') s))"

section \<open>The cache: first in, first out\<close>

lemma cache_run_Nil: "cache_run f c [] = c" by (simp add: cache_run_def)
lemma cache_run_Cons: "cache_run f c (k # ks) = cache_run f (snd (cache_get f c k)) ks"
  by (simp add: cache_run_def)
lemma cache_run_append: "cache_run f c (ks @ ks') = cache_run f (cache_run f c ks) ks'"
  by (simp add: cache_run_def)

lemma cache_get_hit:
  "k \<in> set (cache_keys c) \<Longrightarrow> snd (cache_get f c k) = c"
  by (auto simp: cache_get_def cache_lookup_def cache_keys_def map_of_eq_None_iff split: option.splits)

lemma cache_get_miss:
  "k \<notin> set (cache_keys c) \<Longrightarrow> snd (cache_get f c k) = cache_store c k (f k)"
  by (auto simp: cache_get_def cache_lookup_def cache_keys_def map_of_eq_None_iff[symmetric] Let_def split: option.splits)

lemma capacity_get: "capacity (snd (cache_get f c k)) = capacity c"
  by (simp add: cache_get_def cache_store_def Let_def split: option.splits)

lemma size_get:
  "0 < capacity c \<Longrightarrow> cache_size c \<le> capacity c \<Longrightarrow> cache_size (snd (cache_get f c k)) \<le> capacity c"
  by (cases "entries c") (auto simp: cache_get_def cache_store_def cache_size_def Let_def split: option.splits)

lemma size_run:
  "0 < capacity c \<Longrightarrow> cache_size c \<le> capacity c \<Longrightarrow> cache_size (cache_run f c ks) \<le> capacity c"
proof (induction ks arbitrary: c)
  case Nil then show ?case by (simp add: cache_run_Nil)
next
  case (Cons k ks)
  have "cache_size (cache_run f (snd (cache_get f c k)) ks) \<le> capacity (snd (cache_get f c k))"
    by (rule Cons.IH) (simp_all add: capacity_get size_get Cons.prems)
  then show ?case by (simp add: cache_run_Cons capacity_get)
qed

lemma keys_store_room:
  "cache_size c < capacity c \<Longrightarrow> cache_keys (cache_store c k v) = cache_keys c @ [k]"
  by (simp add: cache_store_def cache_keys_def cache_size_def)

lemma keys_store_full:
  "capacity c \<le> cache_size c \<Longrightarrow> cache_keys (cache_store c k v) = tl (cache_keys c) @ [k]"
  by (simp add: cache_store_def cache_keys_def cache_size_def map_tl)

lemma size_keys: "cache_size c = length (cache_keys c)"
  by (simp add: cache_size_def cache_keys_def)

lemma keys_fill:
  "distinct (cache_keys c @ ks) \<Longrightarrow> cache_size c + length ks \<le> capacity c \<Longrightarrow>
   cache_keys (cache_run f c ks) = cache_keys c @ ks"
proof (induction ks arbitrary: c)
  case Nil then show ?case by (simp add: cache_run_Nil)
next
  case (Cons k ks)
  let ?c = "snd (cache_get f c k)"
  have miss: "?c = cache_store c k (f k)" using Cons.prems(1) by (intro cache_get_miss) auto
  have keys: "cache_keys ?c = cache_keys c @ [k]"
    unfolding miss using Cons.prems(2) by (intro keys_store_room) simp
  have "cache_keys (cache_run f ?c ks) = cache_keys ?c @ ks"
  proof (rule Cons.IH)
    show "distinct (cache_keys ?c @ ks)" using Cons.prems(1) by (simp add: keys)
    show "cache_size ?c + length ks \<le> capacity ?c"
      using Cons.prems(2) by (simp add: size_keys keys capacity_get)
  qed
  then show ?case by (simp add: cache_run_Cons keys)
qed

lemma run_hits: "set rs \<subseteq> set (cache_keys c) \<Longrightarrow> cache_run f c rs = c"
  by (induction rs) (simp_all add: cache_run_Nil cache_run_Cons cache_get_hit)

lemma keys_new: "cache_keys (new_cache K) = []" "cache_size (new_cache K) = 0" "capacity (new_cache K) = K"
  by (simp_all add: cache_keys_def new_cache_def cache_size_def)

lemma bounded_store: "cache_bounded c \<Longrightarrow> cache_bounded (cache_store c k v)"
  by (cases "entries c") (auto simp: cache_bounded_def cache_store_def cache_size_def)

lemma bounded_get: "cache_bounded c \<Longrightarrow> cache_bounded (snd (cache_get f c k))"
  by (simp add: cache_get_def Let_def bounded_store split: option.splits)

lemma bounded_new: "cache_bounded (new_cache 1000)"
  by (simp add: cache_bounded_def new_cache_def cache_size_def)

lemma exec_bounded: "caches_bounded st \<Longrightarrow> caches_bounded (snd (exec h st op))"
proof (cases op)
  case (Dasherize s)
  assume "caches_bounded st"
  with Dasherize show ?thesis
    by (simp add: caches_bounded_def dasherize_def dasherize_func_def decamelize_def
        split_beta bounded_get bounded_store split: option.splits)
qed (simp_all add: caches_bounded_def decamelize_def camelize_def classify_def underscore_def
       capitalize_def split_beta bounded_get)

lemma exec_all_bounded: "caches_bounded st \<Longrightarrow> caches_bounded (exec_all h st calls)"
  unfolding exec_all_def by (induction calls arbitrary: st) (simp_all add: exec_bounded)

lemma initial_bounded: "caches_bounded initial_caches"
  by (simp add: caches_bounded_def initial_caches_def bounded_new)

text \<open>
  C1. A cache of capacity \<open>K > 0\<close> never holds more than \<open>K\<close> entries, whatever the
  sequence \<open>xs\<close> of keys asked for. After \<open>K\<close> distinct keys \<open>ks\<close> have been inserted, all
  of them are resident, and reading any of them (\<open>rs\<close>) changes nothing; inserting one
  more key \<open>k'\<close> then evicts the first-inserted key \<open>hd ks\<close> and no other, whichever keys
  were read in between: the resident keys are the \<open>K\<close> most recently inserted ones. The
  six caches of the module have capacity 1000 and never hold more than 1000 entries,
  whatever calls of the exported functions are made. (The cache is the one written down
  from the specification.)
\<close>

theorem cache_fifo_eviction:
  "(0 < K \<longrightarrow>
     cache_size (cache_run f (new_cache K) xs) \<le> K
     \<and> (distinct (ks @ [k']) \<and> length ks = K \<and> set rs \<subseteq> set ks \<longrightarrow>
          cache_keys (cache_run f (new_cache K) (ks @ rs)) = ks
          \<and> cache_keys (cache_run f (new_cache K) (ks @ rs @ [k'])) = tl ks @ [k']
          \<and> cache_lookup (cache_run f (new_cache K) (ks @ rs @ [k'])) (hd ks) = None))
   \<and> caches_bounded (exec_all h initial_caches calls)"
proof (intro impI conjI)
  assume K: "0 < K"
  show "cache_size (cache_run f (new_cache K) xs) \<le> K"
    using size_run [of "new_cache K" f xs] K by (simp add: keys_new)
next
  assume K: "0 < K" and h: "distinct (ks @ [k']) \<and> length ks = K \<and> set rs \<subseteq> set ks"
  let ?c = "cache_run f (new_cache K) ks"
  have filled: "cache_keys ?c = ks"
    using keys_fill [of "new_cache K" ks f] h by (simp add: keys_new)
  have reads: "cache_run f (new_cache K) (ks @ rs) = ?c"
    using h by (simp add: cache_run_append run_hits filled)
  show 1: "cache_keys (cache_run f (new_cache K) (ks @ rs)) = ks"
    by (simp add: reads filled)
  have cap: "capacity ?c = K"
    unfolding cache_run_def by (induction ks rule: rev_induct) (simp_all add: capacity_get keys_new)
  have miss: "snd (cache_get f ?c k') = cache_store ?c k' (f k')"
    using h by (intro cache_get_miss) (simp add: filled)
  have "cache_run f (new_cache K) (ks @ rs @ [k']) = cache_store ?c k' (f k')"
    using reads miss
    by (simp add: cache_run_append [of f _ "ks @ rs" "[k']", simplified] cache_run_Cons
        cache_run_Nil)
  moreover have "cache_keys (cache_store ?c k' (f k')) = tl (cache_keys ?c) @ [k']"
    using h by (intro keys_store_full) (simp add: cap size_keys filled)
  ultimately show 2: "cache_keys (cache_run f (new_cache K) (ks @ rs @ [k'])) = tl ks @ [k']"
    by (simp add: filled)
  have "ks \<noteq> []" using h K by auto
  then have "hd ks \<notin> set (tl ks @ [k'])"
    using h by (cases ks) auto
  then show "cache_lookup (cache_run f (new_cache K) (ks @ rs @ [k'])) (hd ks) = None"
    unfolding 2 [symmetric] by (simp add: cache_lookup_def cache_keys_def map_of_eq_None_iff)
next
  show "caches_bounded (exec_all h initial_caches calls)"
    by (rule exec_all_bounded) (rule initial_bounded)
qed

theorem cache_fifo_eviction_witness:
  "(0::nat) < 1000 \<and> distinct ([0..<1000] @ [1000::nat]) \<and> length [0..<1000] = 1000
   \<and> set [5, 0] \<subseteq> set [0..<1000]
   \<and> cache_size (cache_run Suc (new_cache 1000) [7, 7, 8]) \<le> 1000
   \<and> cache_keys (cache_run Suc (new_cache 1000) ([0..<1000] @ [5, 0] @ [1000]))
       = tl [0..<1000] @ [1000]"
proof -
  have a: "(0::nat) < 1000" by simp
  have b: "distinct ([0..<1000] @ [1000::nat]) \<and> length [0..<1000] = (1000::nat)
           \<and> set [5, 0] \<subseteq> set [0..<(1000::nat)]"
    by (simp del: upt_rec_numeral)
  from cache_fifo_eviction [of 1000 Suc "[7, 7, 8]" "[0..<1000]" 1000 "[5, 0]"] a b
  have "cache_size (cache_run Suc (new_cache 1000) [7, 7, 8]) \<le> 1000
     \<and> cache_keys (cache_run Suc (new_cache 1000) ([0..<1000] @ [5, 0] @ [1000]))
       = tl [0..<1000] @ [1000]"
    by blast
  with a b show ?thesis by blast
qed


section \<open>The cache: a second call is a hit\<close>

lemma sound_new: "cache_sound f (new_cache K)"
  by (simp add: cache_sound_def new_cache_def)

lemma sound_lookup: "cache_sound f c \<Longrightarrow> cache_lookup c k = Some v \<Longrightarrow> v = f k"
  by (auto simp: cache_sound_def cache_lookup_def dest: map_of_SomeD)

lemma sound_store: "cache_sound f c \<Longrightarrow> cache_sound f (cache_store c k (f k))"
  by (cases "entries c") (auto simp: cache_sound_def cache_store_def)


lemma get_value: "cache_sound f c \<Longrightarrow> fst (cache_get f c k) = f k"
  by (auto simp: cache_get_def Let_def split: option.splits dest: sound_lookup)

lemma get_sound: "cache_sound f c \<Longrightarrow> cache_sound f (snd (cache_get f c k))"
  by (auto simp: cache_get_def Let_def sound_store split: option.splits)



lemma exec_value: "caches_sound h st \<Longrightarrow> fst (exec h st op) = transform h op"
proof (cases op)
  case (Dasherize s)
  assume a: "caches_sound h st"
  show ?thesis
  proof (cases "cache_lookup (STRING_DASHERIZE_CACHE st) s")
    case None
    with a Dasherize show ?thesis
      by (simp add: dasherize_def dasherize_func_def decamelize_def dasherize_pure_def
          caches_sound_def get_value split_beta)
  next
    case (Some v)
    with a have "v = dasherize_pure h s" by (auto simp: caches_sound_def dest: sound_lookup)
    with Some Dasherize show ?thesis by (simp add: dasherize_def)
  qed
qed (simp_all add: caches_sound_def decamelize_def camelize_def classify_def underscore_def
       capitalize_def get_value split_beta)

lemma exec_sound: "caches_sound h st \<Longrightarrow> caches_sound h (snd (exec h st op))"
proof (cases op)
  case (Dasherize s)
  assume a: "caches_sound h st"
  show ?thesis
  proof (cases "cache_lookup (STRING_DASHERIZE_CACHE st) s")
    case None
    with a Dasherize show ?thesis
      using sound_store [of "dasherize_pure h" "STRING_DASHERIZE_CACHE st" s]
      by (simp add: dasherize_def dasherize_func_def decamelize_def dasherize_pure_def
          caches_sound_def get_value get_sound split_beta)
  next
    case (Some v)
    with a Dasherize show ?thesis by (simp add: dasherize_def)
  qed
qed (simp_all add: caches_sound_def decamelize_def camelize_def classify_def underscore_def
       capitalize_def get_sound split_beta)


lemma sound_initial: "caches_sound h initial_caches"
  by (simp add: caches_sound_def initial_caches_def sound_new)

lemma exec_all_sound: "caches_sound h st \<Longrightarrow> caches_sound h (exec_all h st calls)"
  unfolding exec_all_def by (induction calls arbitrary: st) (simp_all add: exec_sound)






section \<open>Facts about replace\<close>

lemma emit_Skip: "emit fn (Skip c) = [c]"
  by (simp add: emit_def)

lemma emit_Hit: "emit fn (Hit m g) = fn m g"
  by (simp add: emit_def)

lemmas class_defs = is_az_def is_AZ_def is_digit_def is_space_def is_line_terminator_def
  is_dot_def is_separator_def is_capitalizable_def cu_def

lemmas case_defs = toLowerCase_def toUpperCase_def is_ascii_def ascii_lower_def
  ascii_upper_def upper_cu_def upper_cp_def is_high_surrogate_def is_low_surrogate_def

declare scan.simps [simp del]

lemma replace_Nil: "re st [] = None \<Longrightarrow> replace_all_from re fn st [] = []"
  by (simp add: replace_all_from_def scan.simps)

lemma replace_None:
  "re st (c # cs) = None \<Longrightarrow> replace_all_from re fn st (c # cs) = c # replace_all_from re fn False cs"
  by (simp add: replace_all_from_def scan.simps emit_Skip)

lemma replace_Some:
  "re st (c # cs) = Some (n, g) \<Longrightarrow> 0 < n \<Longrightarrow>
   replace_all_from re fn st (c # cs)
     = fn (take n (c # cs)) g @ replace_all_from re fn False (drop n (c # cs))"
  by (simp add: replace_all_from_def scan.simps emit_Hit)

lemma decamelize_re_simps:
  "STRING_DECAMELIZE_REGEXP st [] = None"
  "STRING_DECAMELIZE_REGEXP st [a] = None"
  "STRING_DECAMELIZE_REGEXP st (a # b # cs) =
     (if (is_az a \<or> is_digit a) \<and> is_AZ b then Some (2, [a], [b]) else None)"
  by (simp_all add: STRING_DECAMELIZE_REGEXP_def)

lemma decamelize_re_None:
  "\<not> (is_az a \<or> is_digit a) \<Longrightarrow> STRING_DECAMELIZE_REGEXP st (a # cs) = None"
  by (cases cs) (simp_all add: decamelize_re_simps)

lemma decamelize_scan:
  "replace_all_from STRING_DECAMELIZE_REGEXP (\<lambda>m (g1, g2). g1 @ js ''_'' @ g2) st s
   = insert_underscores s"
proof (induction s arbitrary: st rule: insert_underscores.induct)
  case (1 a b cs)
  show ?case
  proof (cases "(is_az a \<or> is_digit a) \<and> is_AZ b")
    case True
    then have nb: "\<not> (is_az b \<or> is_digit b)" by (auto simp: class_defs)
    have m: "STRING_DECAMELIZE_REGEXP st (a # b # cs) = Some (2, [a], [b])"
      using True by (simp add: decamelize_re_simps)
    have "insert_underscores (b # cs)
        = b # replace_all_from STRING_DECAMELIZE_REGEXP (\<lambda>m (g1, g2). g1 @ js ''_'' @ g2) False cs"
      unfolding "1.IH"(1) [OF True, of False, symmetric]
      by (rule replace_None) (rule decamelize_re_None [OF nb])
    with True show ?thesis
      by (simp add: replace_Some [of STRING_DECAMELIZE_REGEXP st a "b # cs", OF m] js_def)
  next
    case False
    then have m: "STRING_DECAMELIZE_REGEXP st (a # b # cs) = None"
      by (simp add: decamelize_re_simps)
    from False "1.IH"(2) [OF False, of False] show ?thesis
      by (simp add: replace_None [of STRING_DECAMELIZE_REGEXP st a "b # cs", OF m])
  qed
qed (simp_all add: replace_None replace_Nil decamelize_re_simps)

lemma decamelize_func_spec: "decamelize_func h s = toLowerCase h (insert_underscores s)"
  by (simp add: decamelize_func_def replace_g_def decamelize_scan)

lemma insert_underscores_suffix: "\<exists>x. insert_underscores (p @ s) = x @ insert_underscores s"
proof (induction p)
  case Nil show ?case by simp
next
  case (Cons a p)
  then obtain x where x: "insert_underscores (p @ s) = x @ insert_underscores s" by blast
  show ?case
  proof (cases "p @ s")
    case Nil then show ?thesis by simp
  next
    case (Cons b cs)
    with x show ?thesis by (cases "(is_az a \<or> is_digit a) \<and> is_AZ b") (auto simp: Cons_eq_append_conv)
  qed
qed

lemma insert_underscores_run:
  "list_all is_AZ u \<Longrightarrow> \<exists>y. insert_underscores (u @ q) = u @ y"
proof (induction u)
  case Nil show ?case by simp
next
  case (Cons a u)
  then have na: "\<not> (is_az a \<or> is_digit a)" by (auto simp: class_defs)
  from Cons obtain y where y: "insert_underscores (u @ q) = u @ y" by auto
  show ?case
  proof (cases "u @ q")
    case Nil then show ?thesis by simp
  next
    case (Cons b cs)
    with y na show ?thesis by auto
  qed
qed

lemma decamelize_run:
  assumes "list_all is_AZ u"
  shows "\<exists>x y. insert_underscores (p @ u @ q) = x @ u @ y
               \<and> decamelize_func h (p @ u @ q) = toLowerCase h (x @ u @ y)"
proof -
  obtain x where "insert_underscores (p @ u @ q) = x @ insert_underscores (u @ q)"
    using insert_underscores_suffix by blast
  moreover obtain y where "insert_underscores (u @ q) = u @ y"
    using insert_underscores_run [OF assms] by blast
  ultimately show ?thesis
    by (auto simp: decamelize_func_spec)
qed

lemma js_simps: "js [] = []" "js (c # cs) = cu c # js cs"
  by (simp_all add: js_def)


lemma initials_scan:
  assumes dc: "\<And>c. d c \<Longrightarrow> \<not> cl c"
    and one: "\<And>a g. cl a \<Longrightarrow> fn [a] g = f a"
    and two: "\<And>a b g. d a \<Longrightarrow> cl b \<Longrightarrow> fn [a, b] g = a # f b"
  shows "replace_all_from (start_or_after d cl) fn st s = initials d cl f st s"
proof (induction "length s" arbitrary: s st rule: less_induct)
  case less
  show ?case
  proof (cases s)
    case Nil then show ?thesis by (simp add: replace_Nil start_or_after_def)
  next
    case (Cons a r)
    note s = Cons
    show ?thesis
    proof (cases "st \<and> cl a")
      case True
      then have "\<not> d a" using dc by blast
      have m: "start_or_after d cl st (a # r) = Some (1, [], [a])"
        using True by (simp add: start_or_after_def)
      have "replace_all_from (start_or_after d cl) fn st (a # r)
            = f a @ replace_all_from (start_or_after d cl) fn False r"
        using replace_Some [of "start_or_after d cl" st a r, OF m] True by (simp add: one)
      with True s less [of r False] \<open>\<not> d a\<close> show ?thesis
        by simp
    next
      case False
      show ?thesis
      proof (cases "d a \<and> (\<exists>b t. r = b # t \<and> cl b)")
        case True
        then obtain b t where r: "r = b # t" and b: "cl b" and a: "d a" by blast
        from b have "\<not> d b" using dc by blast
        have m: "start_or_after d cl st (a # b # t) = Some (2, [a], [b])"
          using False a b by (auto simp: start_or_after_def)
        have "replace_all_from (start_or_after d cl) fn st (a # b # t)
            = a # f b @ replace_all_from (start_or_after d cl) fn False t"
          using replace_Some [of "start_or_after d cl" st a "b # t", OF m] a b
          by (simp add: two)
        with False s r a b less [of t False] \<open>\<not> d b\<close> show ?thesis
          by auto
      next
        case F2: False
        then have m: "start_or_after d cl st (a # r) = None"
          using False by (auto simp: start_or_after_def split: list.splits)
        moreover have "initials d cl f (d a) r = initials d cl f False r"
          using F2 by (cases r) auto
        ultimately show ?thesis
          using s less [of r False] False replace_None [of "start_or_after d cl" st a r, OF m]
          by auto
      qed
    qed
  qed
qed

lemma initials_segment:
  "d x \<Longrightarrow> \<not> cl x \<Longrightarrow>
   initials d cl f st (a @ x # b) = initials d cl f st a @ x # initials d cl f True b"
  by (induction a arbitrary: st) simp_all

lemma toUpperCase_one: "toUpperCase h [a] = upper_cu h a"
  by (simp add: toUpperCase_def upper_cp_def)

lemma toUpperCase_two:
  "\<not> is_high_surrogate a \<Longrightarrow> toUpperCase h [a, b] = upper_cu h a @ upper_cu h b"
  by (simp add: toUpperCase_def upper_cp_def)

lemma upper_cu_slash: "upper_cu h (cu CHR ''/'') = [cu CHR ''/'']"
  by (simp add: upper_cu_def ascii_upper_def class_defs)

lemma upper_cu_dot: "upper_cu h (cu CHR ''.'') = [cu CHR ''.'']"
  by (simp add: upper_cu_def ascii_upper_def class_defs)

lemma slash_no_surrogate: "\<not> is_high_surrogate (cu CHR ''/'')"
  by (simp add: is_high_surrogate_def cu_def)

lemma dot_no_surrogate: "\<not> is_high_surrogate (cu CHR ''.'')"
  by (simp add: is_high_surrogate_def cu_def)

lemma capitalize_func_spec:
  "capitalize_func h s = initials (\<lambda>c. c = cu CHR ''/'') is_capitalizable (upper_cu h) True s"
  unfolding capitalize_func_def replace_g_def STRING_CAPITALIZE_REGEXP_def
proof (rule initials_scan)
  fix c assume "c = cu CHR ''/''"
  then show "\<not> is_capitalizable c" by (simp add: class_defs)
next
  fix a :: nat and g :: "jstr \<times> jstr"
  show "toUpperCase h [a] = upper_cu h a" by (rule toUpperCase_one)
next
  fix a b :: nat and g :: "jstr \<times> jstr"
  assume "a = cu CHR ''/''"
  then show "toUpperCase h [a, b] = a # upper_cu h b"
    by (simp add: toUpperCase_two slash_no_surrogate upper_cu_slash)
qed

lemma exec_all_Nil: "exec_all h st [] = st"
  by (simp add: exec_all_def)

lemma reached_value:
  "fst (exec h (exec_all h initial_caches calls) op) = transform h op"
  by (rule exec_value) (rule exec_all_sound, rule sound_initial)

lemmas decamelize_value = reached_value [where op = "Decamelize s" for s, simplified]
lemmas dasherize_value = reached_value [where op = "Dasherize s" for s, simplified]
lemmas camelize_value = reached_value [where op = "Camelize s" for s, simplified]
lemmas classify_value = reached_value [where op = "Classify s" for s, simplified]
lemmas underscore_value = reached_value [where op = "Underscore s" for s, simplified]
lemmas capitalize_value = reached_value [where op = "Capitalize s" for s, simplified]

section \<open>decamelize\<close>

text \<open>
  C5. In any reachable state of the caches, \<^verbatim>\<open>decamelize(s)\<close> is the host's lowercase
  form of the string that has an underscore exactly between each \<^verbatim>\<open>[a-z0-9]\<close> and an
  uppercase letter \<^verbatim>\<open>[A-Z]\<close> right behind it. A run \<open>u\<close> of uppercase letters is not
  split: it stands unbroken in the string with the underscores, which is then
  lowercased, whatever stands before and behind it. In particular \<^verbatim>\<open>decamelize('innerHTML')\<close> is \<^verbatim>\<open>'inner_html'\<close>.
\<close>

theorem decamelize_inserts_underscores:
  "fst (decamelize h (exec_all h initial_caches calls) s)
     = toLowerCase h (insert_underscores s)
   \<and> (list_all is_AZ u \<longrightarrow>
        (\<exists>x y. insert_underscores (p @ u @ q) = x @ u @ y
               \<and> fst (decamelize h (exec_all h initial_caches calls) (p @ u @ q))
                   = toLowerCase h (x @ u @ y)))
   \<and> fst (decamelize h (exec_all h initial_caches calls) (js ''innerHTML''))
       = js ''inner_html''"
proof (intro conjI impI)
  show "fst (decamelize h (exec_all h initial_caches calls) s)
          = toLowerCase h (insert_underscores s)"
    by (simp add: decamelize_value decamelize_func_spec)
  show "fst (decamelize h (exec_all h initial_caches calls) (js ''innerHTML''))
          = js ''inner_html''"
    by (simp add: decamelize_value decamelize_func_spec js_simps class_defs case_defs)
next
  assume "list_all is_AZ u"
  then show "\<exists>x y. insert_underscores (p @ u @ q) = x @ u @ y
                  \<and> fst (decamelize h (exec_all h initial_caches calls) (p @ u @ q))
                      = toLowerCase h (x @ u @ y)"
    by (simp add: decamelize_value decamelize_run)
qed

theorem decamelize_inserts_underscores_witness:
  "list_all is_AZ (js ''HTML'')
   \<and> (\<exists>x y. insert_underscores (js ''inner'' @ js ''HTML'' @ js ''5'') = x @ js ''HTML'' @ y
          \<and> fst (decamelize latin1_host (exec_all latin1_host initial_caches [])
                  (js ''inner'' @ js ''HTML'' @ js ''5''))
              = toLowerCase latin1_host (x @ js ''HTML'' @ y))"
proof -
  have u: "list_all is_AZ (js ''HTML'')"
    by (simp add: js_simps class_defs)
  from decamelize_inserts_underscores
         [of latin1_host "[]" "[]" "js ''HTML''" "js ''inner''" "js ''5''"] u
  show ?thesis by blast
qed

section \<open>capitalize\<close>

text \<open>
  C9. In any reachable state of the caches, \<^verbatim>\<open>capitalize(s)\<close> replaces a code unit of
  the class \<^verbatim>\<open>[a-z]\<close> or of the range U+00C0 to U+024F by its uppercase form when it is
  the first of the string or stands right behind a \<^verbatim>\<open>/\<close>, and leaves every other code
  unit as it is; \<^verbatim>\<open>capitalize('my favorite items')\<close> is \<^verbatim>\<open>'My favorite items'\<close>. At
  \<^verbatim>\<open>'privateDocs/ownerInvoice'\<close> the letter behind the \<^verbatim>\<open>/\<close> is capitalized as well: the
  result is \<^verbatim>\<open>'PrivateDocs/OwnerInvoice'\<close>, where the doc comment of the function has
  \<^verbatim>\<open>'PrivateDocs/ownerInvoice'\<close>. With the Latin-1 rows of the case tables, U+00E9 at
  the start becomes U+00C9; an accented letter outside the range, such as U+1EA1, stays
  as it is.
\<close>

theorem capitalize_initials:
  "fst (capitalize h (exec_all h initial_caches calls) s)
     = initials (\<lambda>c. c = cu CHR ''/'') is_capitalizable (upper_cu h) True s
   \<and> fst (capitalize h (exec_all h initial_caches calls) (js ''my favorite items''))
       = js ''My favorite items''
   \<and> fst (capitalize h (exec_all h initial_caches calls) (js ''privateDocs/ownerInvoice''))
       = js ''PrivateDocs/OwnerInvoice''
   \<and> fst (capitalize h (exec_all h initial_caches calls) (js ''privateDocs/ownerInvoice''))
       \<noteq> js ''PrivateDocs/ownerInvoice''
   \<and> fst (capitalize latin1_host (exec_all latin1_host initial_caches calls)
            (0xE9 # js ''lan/'' @ [0xFF]))
       = 0xC9 # js ''lan/'' @ [0x178]
   \<and> fst (capitalize h (exec_all h initial_caches calls) (0x1EA1 # js ''n'')) = 0x1EA1 # js ''n''"
  by (simp add: capitalize_value capitalize_func_spec js_simps class_defs upper_cu_def
      ascii_upper_def latin1_host_def latin1_upper_def)

section \<open>w\<close>

text \<open>
  C3. \<^verbatim>\<open>w\<close> is \<^verbatim>\<open>str.split(/\s+/)\<close>: the example of the specification comes out as
  stated, but white space at the start or at the end of the string leaves an empty
  string in the result, and the empty string gives one empty string.
\<close>

theorem w_keeps_empty_fragments:
  "w (js ''alpha  beta gamma'') = [js ''alpha'', js ''beta'', js ''gamma'']
   \<and> w (js '' alpha'') = [[], js ''alpha'']
   \<and> w (js ''alpha '') = [js ''alpha'', []]
   \<and> w [] = [[]]"
  by (simp add: w_def split_re_def whitespace_run_def js_simps class_defs)

section \<open>Formatting\<close>

lemma scan_Nil: "re st [] = None \<Longrightarrow> scan re st [] = []"
  by (simp add: scan.simps)

lemma scan_None: "re st (c # cs) = None \<Longrightarrow> scan re st (c # cs) = Skip c # scan re False cs"
  by (simp add: scan.simps)

lemma scan_Some:
  "re st (c # cs) = Some (n, g) \<Longrightarrow> 0 < n \<Longrightarrow>
   scan re st (c # cs) = Hit (take n (c # cs)) g # scan re False (drop n (c # cs))"
  by (simp add: scan.simps)

lemma substitute_shown: "substitute disp v = shown disp v"
  by (cases v) (simp_all add: substitute_def shown_def inspect_def)

lemma element_argument: "element fs i = argument fs i"
  by (auto simp: element_def argument_def)

lemma template_Nil: "template [] = []"
  by (simp add: template_def)

lemma template_Cons: "template (t # ts) = token_text t @ template ts"
  by (simp add: template_def)

lemma template_append: "template (ts @ us) = template ts @ template us"
  by (simp add: template_def)

lemma template_head:
  "template ts = b # r \<Longrightarrow> b \<noteq> cu CHR ''%'' \<Longrightarrow> starts_with (\<lambda>d. d = b) ts"
proof (induction ts)
  case Nil then show ?case by (simp add: template_Nil)
next
  case (Cons t ts)
  then show ?case by (cases t) (auto simp: template_Cons js_simps)
qed

lemma digits_head:
  "\<not> starts_with is_digit ts \<Longrightarrow> takeWhile is_digit (template ts) = []"
proof (cases ts)
  case Nil then show ?thesis by (simp add: template_Nil)
next
  case (Cons t us)
  assume "\<not> starts_with is_digit ts"
  with Cons show ?thesis by (cases t) (auto simp: template_Cons js_simps class_defs)
qed

lemma digits_run:
  "list_all is_digit ds \<Longrightarrow> \<not> starts_with is_digit ts \<Longrightarrow>
   takeWhile is_digit (ds @ template ts) = ds"
  by (simp add: takeWhile_append2 list_all_iff digits_head)

lemma fmt_re_Chr:
  assumes "\<not> (c = cu CHR ''%'' \<and> starts_with (\<lambda>d. d = cu CHR ''@'') ts)"
  shows "fmt_regexp st (c # template ts) = None"
proof (cases "template ts")
  case Nil then show ?thesis by (simp add: fmt_regexp_def)
next
  case (Cons b r)
  show ?thesis
  proof (cases "c = cu CHR ''%'' \<and> b = cu CHR ''@''")
    case True
    then have "starts_with (\<lambda>d. d = b) ts"
      using template_head [OF Cons] by (simp add: cu_def)
    with True assms show ?thesis by simp
  next
    case False
    with Cons show ?thesis by (auto simp: fmt_regexp_def)
  qed
qed

lemma fmt_re_Next:
  "\<not> starts_with is_digit ts \<Longrightarrow>
   fmt_regexp st (cu CHR ''%'' # cu CHR ''@'' # template ts) = Some (2, None)"
  by (simp add: fmt_regexp_def digits_head)

lemma fmt_re_Nth:
  "ds \<noteq> [] \<Longrightarrow> list_all is_digit ds \<Longrightarrow> \<not> starts_with is_digit ts \<Longrightarrow>
   fmt_regexp st (cu CHR ''%'' # cu CHR ''@'' # ds @ template ts) = Some (2 + length ds, Some ds)"
  by (simp add: fmt_regexp_def digits_run)

lemma fmt_tokens:
  "well_formed ts \<Longrightarrow>
   fmt_pieces disp fs idx (scan fmt_regexp st (template ts)) = expand disp fs idx ts"
proof (induction ts arbitrary: idx st)
  case Nil
  show ?case by (simp add: template_Nil scan_Nil fmt_regexp_def)
next
  case (Cons t ts)
  show ?case
  proof (cases t)
    case (Chr c)
    with Cons.prems have m: "fmt_regexp st (c # template ts) = None"
      by (intro fmt_re_Chr) simp
    from Chr Cons.prems Cons.IH [of idx False] show ?thesis
      by (simp add: template_Cons scan_None [of fmt_regexp st c "template ts", OF m])
  next
    case Next
    with Cons.prems have m: "fmt_regexp st (cu CHR ''%'' # cu CHR ''@'' # template ts) = Some (2, None)"
      by (intro fmt_re_Next) simp
    from Next Cons.prems Cons.IH [of "idx + 1" False] show ?thesis
      by (simp add: template_Cons js_simps substitute_shown element_argument
          scan_Some [of fmt_regexp st "cu CHR ''%''" "cu CHR ''@'' # template ts", OF m])
  next
    case (Nth ds)
    with Cons.prems have m: "fmt_regexp st (cu CHR ''%'' # cu CHR ''@'' # ds @ template ts)
        = Some (2 + length ds, Some ds)"
      by (intro fmt_re_Nth) simp_all
    from Nth Cons.prems Cons.IH [of idx False] show ?thesis
      by (simp add: template_Cons js_simps substitute_shown element_argument
          scan_Some [of fmt_regexp st "cu CHR ''%''" "cu CHR ''@'' # ds @ template ts", OF m])
  qed
qed

lemma fmt_template:
  "well_formed ts \<Longrightarrow> fmt disp (template ts) rest = expand disp (cachedFormats rest) 0 ts"
  by (simp add: fmt_def fmt_tokens)

lemma cachedFormats_Arr: "cachedFormats [Arr xs] = xs"
  by (simp add: cachedFormats_def first_arg_def)


lemmas fmt_eval = fmt_def fmt_regexp_def cachedFormats_def first_arg_def js_simps class_defs
  substitute_def inspect_def element_def parseInt_def scan.simps

text \<open>
  C6. For a template that is the text of a well-formed token sequence, \<^verbatim>\<open>_fmt\<close> returns
  the expansion of the tokens: each \<^verbatim>\<open>%@\<close> is replaced by the next positional argument,
  from left to right, and each \<^verbatim>\<open>%@N\<close> by the \<open>N\<close>-th argument counted from one, which
  does not move the positional index. In particular the two examples of the
  specification come out as stated, and in \<^verbatim>\<open>'%@2 %@'\<close> the token \<^verbatim>\<open>%@\<close> still takes
  the first argument.
\<close>

theorem fmt_positional_and_indexed:
  "(well_formed ts \<longrightarrow>
      fmt disp (template ts) rest = expand disp (cachedFormats rest) 0 ts)
   \<and> fmt disp (js ''Hello %@ %@'') [Arr [Str (js ''John''), Str (js ''Smith'')]]
       = js ''Hello John Smith''
   \<and> fmt disp (js ''Hello %@2 %@1'') [Arr [Str (js ''John''), Str (js ''Smith'')]]
       = js ''Hello Smith John''
   \<and> fmt disp (js ''%@2 %@'') [Arr [Str (js ''John''), Str (js ''Smith'')]]
       = js ''Smith John''"
proof (intro conjI impI)
  assume "well_formed ts"
  then show "fmt disp (template ts) rest = expand disp (cachedFormats rest) 0 ts"
    by (rule fmt_template)
next
  show "fmt disp (js ''Hello %@ %@'') [Arr [Str (js ''John''), Str (js ''Smith'')]]
       = js ''Hello John Smith''"
    by (simp add: fmt_eval)
  show "fmt disp (js ''Hello %@2 %@1'') [Arr [Str (js ''John''), Str (js ''Smith'')]]
       = js ''Hello Smith John''"
    by (simp add: fmt_eval)
  show "fmt disp (js ''%@2 %@'') [Arr [Str (js ''John''), Str (js ''Smith'')]]
       = js ''Smith John''"
    by (simp add: fmt_eval)
qed

theorem fmt_positional_and_indexed_witness:
  "well_formed (map Chr (js ''Hi '') @ [Nth (js ''2''), Chr (cu CHR '' ''), Next])
   \<and> fmt (\<lambda>v :: unit jsval. [])
        (template (map Chr (js ''Hi '') @ [Nth (js ''2''), Chr (cu CHR '' ''), Next]))
        [Str (js ''John''), Str (js ''Smith'')]
      = js ''Hi Smith John''"
proof -
  let ?ts = "map Chr (js ''Hi '') @ [Nth (js ''2''), Chr (cu CHR '' ''), Next]"
  have wf: "well_formed ?ts"
    by (simp add: js_simps class_defs)
  have "expand (\<lambda>v :: unit jsval. []) (cachedFormats [Str (js ''John''), Str (js ''Smith'')]) 0 ?ts
        = js ''Hi Smith John''"
    by (simp add: js_simps class_defs cachedFormats_def first_arg_def shown_def argument_def
        inspect_def parseInt_def)
  with fmt_positional_and_indexed [of ?ts "\<lambda>v :: unit jsval. []" "[Str (js ''John''), Str (js ''Smith'')]"] wf
  show ?thesis by simp
qed

lemma tokenize_head: "starts_with P (tokenize s) \<Longrightarrow> s \<noteq> [] \<and> P (hd s)"
  by (induction s rule: tokenize.induct) (simp_all split: if_splits)

lemma tokenize_plain:
  "\<not> (a = cu CHR ''%'' \<and> b = cu CHR ''@'') \<Longrightarrow>
   tokenize (a # b # r) = Chr a # tokenize (b # r)"
  by simp

lemma template_tokenize: "template (tokenize s) = s"
proof (induction s rule: tokenize.induct)
  case (3 a b r)
  show ?case
  proof (cases "a = cu CHR ''%'' \<and> b = cu CHR ''@''")
    case True
    with "3.IH"(1) have "template (tokenize (dropWhile is_digit r)) = dropWhile is_digit r"
      by simp
    moreover have "takeWhile is_digit r @ dropWhile is_digit r = r" by simp
    ultimately show ?thesis
      using True by (cases "takeWhile is_digit r = []") (simp_all add: template_Cons js_simps)
  next
    case False
    with "3.IH"(2) have "template (tokenize (b # r)) = b # r" by simp
    then show ?thesis
      by (simp add: tokenize_plain [OF False] template_Cons del: tokenize.simps)
  qed
qed (simp_all add: template_Nil template_Cons)

lemma well_formed_tokenize: "well_formed (tokenize s)"
proof (induction s rule: tokenize.induct)
  case (3 a b r)
  show ?case
  proof (cases "a = cu CHR ''%'' \<and> b = cu CHR ''@''")
    case True
    with "3.IH"(1) have wf: "well_formed (tokenize (dropWhile is_digit r))" by simp
    have nd: "\<not> starts_with is_digit (tokenize (dropWhile is_digit r))"
    proof
      assume "starts_with is_digit (tokenize (dropWhile is_digit r))"
      then have "dropWhile is_digit r \<noteq> [] \<and> is_digit (hd (dropWhile is_digit r))"
        by (rule tokenize_head)
      then show False using hd_dropWhile [of is_digit r] by blast
    qed
    have "list_all is_digit (takeWhile is_digit r)"
      by (simp add: list_all_iff) (meson set_takeWhileD)
    with True wf nd show ?thesis
      by (cases "takeWhile is_digit r = []") simp_all
  next
    case False
    with "3.IH"(2) have wf: "well_formed (tokenize (b # r))" by simp
    have "\<not> (a = cu CHR ''%'' \<and> starts_with (\<lambda>d. d = cu CHR ''@'') (tokenize (b # r)))"
    proof
      assume c: "a = cu CHR ''%'' \<and> starts_with (\<lambda>d. d = cu CHR ''@'') (tokenize (b # r))"
      then have "hd (b # r) = cu CHR ''@''" using tokenize_head by blast
      with c False show False by simp
    qed
    with wf show ?thesis
      by (simp add: tokenize_plain [OF False] del: tokenize.simps)
  qed
qed simp_all

lemma fmt_tokenize: "fmt disp str rest = expand disp (cachedFormats rest) 0 (tokenize str)"
  using fmt_template [OF well_formed_tokenize, of disp str rest]
  by (simp add: template_tokenize)

lemma argument_Nil: "argument [] i = Undefined"
  by (auto simp: argument_def)

lemma expand_no_arguments: "expand disp [] pos ts = plain_text ts"
  by (induction ts arbitrary: pos rule: plain_text.induct)
     (simp_all add: shown_def argument_Nil)

text \<open>
  C7. \<^verbatim>\<open>_fmt\<close> has no failing path: it returns a string for every template and every
  list of arguments. Every string reads as a well-formed sequence of tokens, and the
  result is the expansion of these tokens, where each token, wherever it stands, is
  replaced by the text shown for the argument it addresses: \<^verbatim>\<open>(null)\<close> for \<^verbatim>\<open>null\<close>, the
  empty string for \<^verbatim>\<open>undefined\<close>, and an index outside the argument list (a missing
  argument, \<^verbatim>\<open>%@N\<close> beyond the list, \<^verbatim>\<open>%@0\<close>) addresses \<^verbatim>\<open>undefined\<close>. With no
  arguments at all only the plain text of the template is left.
\<close>

theorem fmt_degrades_gracefully:
  "well_formed (tokenize str) \<and> template (tokenize str) = str
   \<and> fmt disp str rest = expand disp (cachedFormats rest) 0 (tokenize str)
   \<and> shown disp Null = js ''(null)'' \<and> shown disp Undefined = []
   \<and> argument args (int (length args) + int n) = Undefined
   \<and> argument args (- 1 - int n) = Undefined
   \<and> fmt disp str [] = plain_text (tokenize str)
   \<and> fmt disp (js ''a%@b'') [Arr [Null]] = js ''a(null)b''
   \<and> fmt disp (js ''a%@b'') [Arr [Undefined]] = js ''ab''
   \<and> fmt disp (js ''%@ %@'') [Arr [Null]] = js ''(null) ''
   \<and> fmt disp (js ''%@ %@'') [Arr [Str (js ''John''), Null]] = js ''John (null)''
   \<and> fmt disp (js ''%@ %@2 %@ %@'') [Arr [Str (js ''John''), Undefined]] = js ''John   ''
   \<and> fmt disp (js ''a%@3b%@0'') [Arr [Str (js ''John'')]] = js ''ab''"
proof (intro conjI)
  show "well_formed (tokenize str)" by (rule well_formed_tokenize)
  show "template (tokenize str) = str" by (rule template_tokenize)
  show "fmt disp str rest = expand disp (cachedFormats rest) 0 (tokenize str)"
    by (rule fmt_tokenize)
  show "fmt disp str [] = plain_text (tokenize str)"
    by (simp add: fmt_tokenize cachedFormats_def first_arg_def expand_no_arguments)
  show "argument args (int (length args) + int n) = Undefined"
    by (simp add: argument_def)
  show "argument args (- 1 - int n) = Undefined"
    by (simp add: argument_def)
qed (simp_all add: shown_def fmt_eval)

theorem fmt_degrades_gracefully_witness:
  "well_formed (tokenize (js ''%@ %@2''))
   \<and> template (tokenize (js ''%@ %@2'')) = js ''%@ %@2''
   \<and> tokenize (js ''%@ %@2'') = [Next, Chr (cu CHR '' ''), Nth (js ''2'')]
   \<and> fmt (\<lambda>v :: unit jsval. []) (js ''%@ %@2'') [Arr [Null]] = js ''(null) ''"
proof -
  note t = fmt_degrades_gracefully
             [of "js ''%@ %@2''" "\<lambda>v :: unit jsval. []" "[Arr [Null]]" "[]" 0]
  have k: "tokenize (js ''%@ %@2'') = [Next, Chr (cu CHR '' ''), Nth (js ''2'')]"
    by (simp add: js_simps class_defs)
  from t have "fmt (\<lambda>v :: unit jsval. []) (js ''%@ %@2'') [Arr [Null]]
                 = expand (\<lambda>v :: unit jsval. []) (cachedFormats [Arr [Null]]) 0
                     (tokenize (js ''%@ %@2''))"
    by blast
  also have "\<dots> = js ''(null) ''"
    unfolding k
    by (simp add: js_simps class_defs cachedFormats_def first_arg_def shown_def argument_def
        parseInt_def)
  finally have "fmt (\<lambda>v :: unit jsval. []) (js ''%@ %@2'') [Arr [Null]] = js ''(null) ''" .
  with t k show ?thesis by blast
qed

section \<open>Localisation\<close>

lemma cachedFormats_loc:
  "cachedFormats [if \<not> isArray (first_arg rest) \<or> length rest + 1 > 2 then Arr rest
                  else first_arg rest] = cachedFormats rest"
proof (cases "\<not> isArray (first_arg rest) \<or> length rest + 1 > 2")
  case True
  then show ?thesis by (simp add: cachedFormats_def first_arg_def)
next
  case False
  then obtain xs where "rest = [Arr xs]"
    by (cases rest; cases "hd rest") (auto simp: first_arg_def)
  then show ?thesis by (simp add: cachedFormats_def first_arg_def)
qed

lemma fmt_loc_formats:
  "fmt disp s [if \<not> isArray (first_arg rest) \<or> length rest + 1 > 2 then Arr rest
               else first_arg rest] = fmt disp s rest"
  unfolding fmt_def cachedFormats_loc ..

lemma loc_fmt:
  "loc getString disp key rest
     = fmt disp (case getString key of None \<Rightarrow> key | Some t \<Rightarrow> if t \<noteq> [] then t else key) rest"
  unfolding loc_def Let_def fmt_loc_formats ..

text \<open>
  C10. When the registry lookup yields the empty string, as when it yields nothing,
  \<^verbatim>\<open>loc\<close> formats the key itself: \<^verbatim>\<open>loc(key, ...rest)\<close> is \<^verbatim>\<open>_fmt(key, ...rest)\<close>. A
  non-empty string found in the registry is formatted in place of the key.
\<close>

theorem loc_falls_back_on_falsy:
  "(getString key = Some [] \<or> getString key = None \<longrightarrow>
      loc getString disp key rest = fmt disp key rest)
   \<and> (getString key = Some t \<and> t \<noteq> [] \<longrightarrow>
      loc getString disp key rest = fmt disp t rest)"
  by (auto simp: loc_fmt)

theorem loc_falls_back_on_falsy_witness:
  "(\<lambda>k. Some []) (js ''_Hello %@'') = Some ([] :: jstr)
   \<and> loc (\<lambda>k. Some []) (\<lambda>v :: unit jsval. []) (js ''_Hello %@'') [Str (js ''John'')]
       = js ''_Hello John''
   \<and> (\<lambda>k. Some (js ''Bonjour %@'')) (js ''_Hello %@'') = Some (js ''Bonjour %@'')
   \<and> js ''Bonjour %@'' \<noteq> []
   \<and> loc (\<lambda>k. Some (js ''Bonjour %@'')) (\<lambda>v :: unit jsval. []) (js ''_Hello %@'')
         [Str (js ''John'')]
       = js ''Bonjour John''"
proof -
  have "loc (\<lambda>k. Some []) (\<lambda>v :: unit jsval. []) (js ''_Hello %@'') [Str (js ''John'')]
        = fmt (\<lambda>v :: unit jsval. []) (js ''_Hello %@'') [Str (js ''John'')]"
    using loc_falls_back_on_falsy [of "\<lambda>k. Some []" "js ''_Hello %@''" "\<lambda>v :: unit jsval. []"
        "[Str (js ''John'')]" "[]"] by simp
  moreover have "loc (\<lambda>k. Some (js ''Bonjour %@'')) (\<lambda>v :: unit jsval. []) (js ''_Hello %@'')
         [Str (js ''John'')]
        = fmt (\<lambda>v :: unit jsval. []) (js ''Bonjour %@'') [Str (js ''John'')]"
    using loc_falls_back_on_falsy [of "\<lambda>k. Some (js ''Bonjour %@'')" "js ''_Hello %@''"
        "\<lambda>v :: unit jsval. []" "[Str (js ''John'')]" "js ''Bonjour %@''"]
    by (simp add: js_simps)
  ultimately show ?thesis by (simp add: fmt_eval)
qed


section \<open>Idempotence of underscore and dasherize\<close>

lemma replace_id:
  assumes "\<And>st t. set t \<subseteq> set s \<Longrightarrow> re st t = None"
  shows "replace_all_from re fn st s = s"
  using assms
proof (induction s arbitrary: st)
  case Nil
  then show ?case by (simp add: replace_Nil)
next
  case (Cons c cs)
  have m: "re st (c # cs) = None" by (rule Cons.prems) simp
  have "replace_all_from re fn False cs = cs"
    by (rule Cons.IH) (rule Cons.prems, auto)
  with replace_None [of re st c cs fn, OF m] show ?case by simp
qed

lemma underscore1_None:
  "\<forall>c \<in> set t. \<not> is_AZ c \<Longrightarrow> STRING_UNDERSCORE_REGEXP_1 st t = None"
  by (cases t; cases "tl t") (auto simp: STRING_UNDERSCORE_REGEXP_1_def Let_def)

lemma underscore2_None:
  "\<forall>c \<in> set t. c \<noteq> cu CHR ''-'' \<and> \<not> is_space c \<Longrightarrow> STRING_UNDERSCORE_REGEXP_2 st t = None"
  by (cases t) (auto simp: STRING_UNDERSCORE_REGEXP_2_def)

lemma decamelize_None:
  "\<forall>c \<in> set t. \<not> is_AZ c \<Longrightarrow> STRING_DECAMELIZE_REGEXP st t = None"
  by (cases t; cases "tl t") (auto simp: STRING_DECAMELIZE_REGEXP_def)

lemma dasherize_None:
  "\<forall>c \<in> set t. c \<noteq> cu CHR '' '' \<and> c \<noteq> cu CHR ''_'' \<Longrightarrow> STRING_DASHERIZE_REGEXP st t = None"
  by (cases t) (auto simp: STRING_DASHERIZE_REGEXP_def)

lemma underscore2_clean:
  "\<forall>c \<in> set (replace_all_from STRING_UNDERSCORE_REGEXP_2 (\<lambda>m g. js ''_'') st s).
     c \<noteq> cu CHR ''-'' \<and> \<not> is_space c"
proof (induction "length s" arbitrary: s st rule: less_induct)
  case less
  show ?case
  proof (cases s)
    case Nil
    then show ?thesis by (simp add: replace_Nil STRING_UNDERSCORE_REGEXP_2_def)
  next
    case (Cons c cs)
    show ?thesis
    proof (cases "STRING_UNDERSCORE_REGEXP_2 st (c # cs)")
      case None
      then have "c \<noteq> cu CHR ''-'' \<and> \<not> is_space c"
        by (auto simp: STRING_UNDERSCORE_REGEXP_2_def split: if_splits)
      with Cons less [of cs False] replace_None [of STRING_UNDERSCORE_REGEXP_2 st c cs, OF None]
      show ?thesis by simp
    next
      case (Some a)
      obtain n g where a: "a = (n, g)" by (cases a)
      with Some have n: "0 < n"
        by (auto simp: STRING_UNDERSCORE_REGEXP_2_def split: if_splits)
      have "length (drop n (c # cs)) < length s" using n Cons by simp
      from less [OF this, of False] Cons
        replace_Some [of STRING_UNDERSCORE_REGEXP_2 st c cs n g, OF Some [unfolded a] n]
      show ?thesis by (simp add: js_simps class_defs)
    qed
  qed
qed

lemma settled_at:
  assumes "lower_settled h"
  shows "(\<forall>d \<in> set (toLowerCase h t).
            \<not> is_AZ d \<and> (d = cu CHR ''-'' \<or> is_space d \<longrightarrow> d \<in> set t))
         \<and> toLowerCase h (toLowerCase h t) = toLowerCase h t
         \<and> toLowerCase h (to_hyphens t) = to_hyphens (toLowerCase h t)"
  using assms unfolding lower_settled_def by (rule spec)

lemma settled_no_capital:
  "lower_settled h \<Longrightarrow> d \<in> set (toLowerCase h t) \<Longrightarrow> \<not> is_AZ d"
  using settled_at [of h t] by blast

lemma settled_no_new_separator:
  "lower_settled h \<Longrightarrow> d \<in> set (toLowerCase h t) \<Longrightarrow>
   d = cu CHR ''-'' \<or> is_space d \<Longrightarrow> d \<in> set t"
  using settled_at [of h t] by blast

lemma settled_again:
  "lower_settled h \<Longrightarrow> toLowerCase h (toLowerCase h t) = toLowerCase h t"
  using settled_at [of h t] by blast

lemma settled_hyphens:
  "lower_settled h \<Longrightarrow> toLowerCase h (to_hyphens t) = to_hyphens (toLowerCase h t)"
  using settled_at [of h t] by blast

lemma underscore_func_idem:
  assumes h: "lower_settled h"
  shows "underscore_func h (underscore_func h s) = underscore_func h s"
proof -
  let ?t = "replace_g STRING_UNDERSCORE_REGEXP_2 (\<lambda>m g. js ''_'')
              (replace_g STRING_UNDERSCORE_REGEXP_1 (\<lambda>m (g1, g2). g1 @ js ''_'' @ g2) s)"
  let ?u = "underscore_func h s"
  have ut: "?u = toLowerCase h ?t" by (simp add: underscore_func_def)
  have t: "\<forall>c \<in> set ?t. c \<noteq> cu CHR ''-'' \<and> \<not> is_space c"
    unfolding replace_g_def using underscore2_clean by blast
  have u: "\<forall>d \<in> set ?u. \<not> is_AZ d \<and> d \<noteq> cu CHR ''-'' \<and> \<not> is_space d"
  proof
    fix d assume "d \<in> set ?u"
    then have d: "d \<in> set (toLowerCase h ?t)" by (simp only: ut)
    have a: "\<not> is_AZ d" using h d by (rule settled_no_capital)
    have "d = cu CHR ''-'' \<or> is_space d \<Longrightarrow> d \<in> set ?t"
      using h d by (rule settled_no_new_separator)
    with t a show "\<not> is_AZ d \<and> d \<noteq> cu CHR ''-'' \<and> \<not> is_space d" by blast
  qed
  have 1: "replace_g STRING_UNDERSCORE_REGEXP_1 (\<lambda>m (g1, g2). g1 @ js ''_'' @ g2) ?u = ?u"
    unfolding replace_g_def using u by (intro replace_id underscore1_None) blast
  have 2: "replace_g STRING_UNDERSCORE_REGEXP_2 (\<lambda>m g. js ''_'') ?u = ?u"
    unfolding replace_g_def using u by (intro replace_id underscore2_None) blast
  have 3: "toLowerCase h ?u = ?u"
    unfolding ut using h by (rule settled_again)
  show ?thesis
    by (subst underscore_func_def) (simp only: 1 2 3)
qed

lemma dasherize_clean:
  "e \<in> set (replace_all_from STRING_DASHERIZE_REGEXP (\<lambda>m g. js ''-'') st x) \<Longrightarrow>
   e = cu CHR ''-'' \<or> (e \<in> set x \<and> e \<noteq> cu CHR '' '' \<and> e \<noteq> cu CHR ''_'')"
proof (induction x arbitrary: st)
  case Nil
  then show ?case by (simp add: replace_Nil STRING_DASHERIZE_REGEXP_def)
next
  case (Cons c cs)
  show ?case
  proof (cases "c = cu CHR '' '' \<or> c = cu CHR ''_''")
    case True
    then have m: "STRING_DASHERIZE_REGEXP st (c # cs) = Some (1, ())"
      by (simp add: STRING_DASHERIZE_REGEXP_def)
    from Cons.prems replace_Some [of STRING_DASHERIZE_REGEXP st c cs 1 "()", OF m]
    have "e = cu CHR ''-'' \<or> e \<in> set (replace_all_from STRING_DASHERIZE_REGEXP (\<lambda>m g. js ''-'') False cs)"
      by (auto simp: js_simps)
    with Cons.IH [of False] show ?thesis by auto
  next
    case False
    then have m: "STRING_DASHERIZE_REGEXP st (c # cs) = None"
      by (simp add: STRING_DASHERIZE_REGEXP_def)
    from Cons.prems replace_None [of STRING_DASHERIZE_REGEXP st c cs, OF m]
    have "e = c \<or> e \<in> set (replace_all_from STRING_DASHERIZE_REGEXP (\<lambda>m g. js ''-'') False cs)"
      by auto
    with Cons.IH [of False] False show ?thesis by auto
  qed
qed

lemma dasherize_pure_hyphens: "dasherize_pure h s = to_hyphens (decamelize_func h s)"
  by (simp add: dasherize_pure_def to_hyphens_def)

lemma dasherize_pure_idem:
  assumes h: "lower_settled h"
  shows "dasherize_pure h (dasherize_pure h s) = dasherize_pure h s"
proof -
  let ?y = "replace_g STRING_DECAMELIZE_REGEXP (\<lambda>m (g1, g2). g1 @ js ''_'' @ g2) s"
  let ?x = "decamelize_func h s"
  let ?d = "dasherize_pure h s"
  have xy: "?x = toLowerCase h ?y" by (simp add: decamelize_func_def)
  have d: "\<forall>e \<in> set ?d. \<not> is_AZ e \<and> e \<noteq> cu CHR '' '' \<and> e \<noteq> cu CHR ''_''"
  proof
    fix e assume "e \<in> set ?d"
    then have "e = cu CHR ''-'' \<or> (e \<in> set ?x \<and> e \<noteq> cu CHR '' '' \<and> e \<noteq> cu CHR ''_'')"
      unfolding dasherize_pure_def replace_g_def by (rule dasherize_clean)
    then show "\<not> is_AZ e \<and> e \<noteq> cu CHR '' '' \<and> e \<noteq> cu CHR ''_''"
    proof
      assume "e = cu CHR ''-''"
      then show ?thesis by (simp add: class_defs)
    next
      assume e: "e \<in> set ?x \<and> e \<noteq> cu CHR '' '' \<and> e \<noteq> cu CHR ''_''"
      then have "e \<in> set (toLowerCase h ?y)" by (simp only: xy)
      with h have "\<not> is_AZ e" by (rule settled_no_capital)
      with e show ?thesis by blast
    qed
  qed
  have 1: "replace_g STRING_DECAMELIZE_REGEXP (\<lambda>m (g1, g2). g1 @ js ''_'' @ g2) ?d = ?d"
    unfolding replace_g_def using d by (intro replace_id decamelize_None) blast
  have "toLowerCase h ?d = toLowerCase h (to_hyphens (toLowerCase h ?y))"
    by (simp add: dasherize_pure_hyphens xy)
  also have "\<dots> = to_hyphens (toLowerCase h (toLowerCase h ?y))"
    using h by (rule settled_hyphens)
  also have "\<dots> = to_hyphens (toLowerCase h ?y)"
    using h by (simp only: settled_again)
  finally have 3: "toLowerCase h ?d = ?d"
    by (simp add: dasherize_pure_hyphens xy)
  have 2: "replace_g STRING_DASHERIZE_REGEXP (\<lambda>m g. js ''-'') ?d = ?d"
    unfolding replace_g_def using d by (intro replace_id dasherize_None) blast
  have "decamelize_func h ?d = ?d"
    by (subst decamelize_func_def) (simp only: 1 3)
  then show ?thesis
    by (subst dasherize_pure_def) (simp only: 2)
qed

lemma to_hyphens_map:
  "replace_all_from STRING_DASHERIZE_REGEXP (\<lambda>m g. js ''-'') st t
     = map (\<lambda>c. if c = cu CHR '' '' \<or> c = cu CHR ''_'' then cu CHR ''-'' else c) t"
proof (induction t arbitrary: st)
  case Nil
  show ?case by (simp add: replace_Nil STRING_DASHERIZE_REGEXP_def)
next
  case (Cons c cs)
  show ?case
  proof (cases "c = cu CHR '' '' \<or> c = cu CHR ''_''")
    case True
    then have m: "STRING_DASHERIZE_REGEXP st (c # cs) = Some (1, ())"
      by (simp add: STRING_DASHERIZE_REGEXP_def)
    from replace_Some [of STRING_DASHERIZE_REGEXP st c cs 1 "()", OF m] True Cons [of False]
    show ?thesis by (auto simp: js_simps)
  next
    case False
    then have m: "STRING_DASHERIZE_REGEXP st (c # cs) = None"
      by (simp add: STRING_DASHERIZE_REGEXP_def)
    from replace_None [of STRING_DASHERIZE_REGEXP st c cs, OF m] False Cons [of False]
    show ?thesis by simp
  qed
qed

lemma latin1_toLowerCase: "toLowerCase latin1_host t = map latin1_lower t"
proof (cases "is_ascii t")
  case True
  then have "map ascii_lower t = map latin1_lower t"
    by (auto simp: is_ascii_def list_all_iff latin1_lower_def)
  with True show ?thesis by (simp add: toLowerCase_def)
next
  case False
  then show ?thesis by (simp add: toLowerCase_def latin1_host_def)
qed

lemma latin1_lower_no_capital: "\<not> is_AZ (latin1_lower c)"
  by (auto simp: latin1_lower_def ascii_lower_def class_defs)

lemma latin1_lower_separator:
  "latin1_lower c = cu CHR ''-'' \<or> is_space (latin1_lower c) \<Longrightarrow> latin1_lower c = c"
  by (auto simp: latin1_lower_def ascii_lower_def class_defs split: if_splits)

lemma latin1_lower_again: "latin1_lower (latin1_lower c) = latin1_lower c"
  by (auto simp: latin1_lower_def ascii_lower_def class_defs)

lemma latin1_lower_hyphen:
  "latin1_lower (if c = cu CHR '' '' \<or> c = cu CHR ''_'' then cu CHR ''-'' else c)
     = (if latin1_lower c = cu CHR '' '' \<or> latin1_lower c = cu CHR ''_'' then cu CHR ''-''
        else latin1_lower c)"
  by (auto simp: latin1_lower_def ascii_lower_def class_defs)

lemma to_hyphens_eq:
  "to_hyphens t = map (\<lambda>c. if c = cu CHR '' '' \<or> c = cu CHR ''_'' then cu CHR ''-'' else c) t"
  unfolding to_hyphens_def replace_g_def by (rule to_hyphens_map)

lemma latin1_settled: "lower_settled latin1_host"
  unfolding lower_settled_def
proof (intro allI conjI ballI impI)
  fix t d assume "d \<in> set (toLowerCase latin1_host t)"
  then obtain c where c: "c \<in> set t" and d: "d = latin1_lower c"
    by (auto simp: latin1_toLowerCase)
  show "\<not> is_AZ d" unfolding d by (rule latin1_lower_no_capital)
  assume "d = cu CHR ''-'' \<or> is_space d"
  then have "d = c" unfolding d by (rule latin1_lower_separator)
  with c show "d \<in> set t" by simp
next
  fix t
  show "toLowerCase latin1_host (toLowerCase latin1_host t) = toLowerCase latin1_host t"
    by (simp add: latin1_toLowerCase latin1_lower_again)
  show "toLowerCase latin1_host (to_hyphens t) = to_hyphens (toLowerCase latin1_host t)"
    unfolding latin1_toLowerCase to_hyphens_eq
    by (simp add: latin1_lower_hyphen del: if_split cong: if_cong)
qed

lemma exec_all_snoc: "exec_all h st (calls @ [c]) = snd (exec h (exec_all h st calls) c)"
  by (simp add: exec_all_def)

lemma underscore_twice:
  "lower_settled h \<Longrightarrow>
   (let (v1, st1) = underscore h (exec_all h initial_caches calls) s;
        (v2, st2) = underscore h st1 v1
    in v2 = v1)"
  using underscore_value [of h "calls @ [Underscore s]" "underscore_func h s"]
  by (simp add: split_beta exec_all_snoc underscore_value underscore_func_idem)

lemma dasherize_twice:
  "lower_settled h \<Longrightarrow>
   (let (v1, st1) = dasherize h (exec_all h initial_caches calls) s;
        (v2, st2) = dasherize h st1 v1
    in v2 = v1)"
  using dasherize_value [of h "calls @ [Dasherize s]" "dasherize_pure h s"]
  by (simp add: split_beta exec_all_snoc dasherize_value dasherize_pure_idem)

lemmas replace_eval = replace_g_def replace_all_from_def scan.simps emit_Skip emit_Hit
  js_simps class_defs case_defs

text \<open>
  C4. With a host whose lowercasing is settled (a lowercased string has no ASCII
  capital and no hyphen or white space that was not there before, lowercasing it again
  changes nothing, and lowercasing goes through the change of spaces and underscores
  into hyphens), applying \<^verbatim>\<open>underscore\<close> to the result of \<^verbatim>\<open>underscore\<close>, or \<^verbatim>\<open>dasherize\<close>
  to the result of \<^verbatim>\<open>dasherize\<close>, gives that result again, for every string and in any
  reachable state of the caches. In particular \<^verbatim>\<open>'action_name'\<close> is left unchanged by
  \<^verbatim>\<open>underscore\<close> and \<^verbatim>\<open>'css-class-name'\<close> by \<^verbatim>\<open>dasherize\<close>, whatever the host.
\<close>

theorem underscore_dasherize_idempotent:
  "(lower_settled h \<longrightarrow>
      (let (v1, st1) = underscore h (exec_all h initial_caches calls) s;
           (v2, st2) = underscore h st1 v1
       in v2 = v1)
      \<and> (let (v1, st1) = dasherize h (exec_all h initial_caches calls) s;
              (v2, st2) = dasherize h st1 v1
          in v2 = v1))
   \<and> fst (underscore h (exec_all h initial_caches calls) (js ''action_name''))
       = js ''action_name''
   \<and> fst (dasherize h (exec_all h initial_caches calls) (js ''css-class-name''))
       = js ''css-class-name''"
proof (intro conjI impI)
  assume "lower_settled h"
  then show "let (v1, st1) = underscore h (exec_all h initial_caches calls) s;
                 (v2, st2) = underscore h st1 v1
             in v2 = v1"
    by (rule underscore_twice)
next
  assume "lower_settled h"
  then show "let (v1, st1) = dasherize h (exec_all h initial_caches calls) s;
                 (v2, st2) = dasherize h st1 v1
             in v2 = v1"
    by (rule dasherize_twice)
next
  show "fst (underscore h (exec_all h initial_caches calls) (js ''action_name''))
       = js ''action_name''"
    by (simp add: underscore_value underscore_func_def replace_eval
        STRING_UNDERSCORE_REGEXP_1_def STRING_UNDERSCORE_REGEXP_2_def)
next
  show "fst (dasherize h (exec_all h initial_caches calls) (js ''css-class-name''))
       = js ''css-class-name''"
    by (simp add: dasherize_value dasherize_pure_def decamelize_func_def replace_eval
        STRING_DECAMELIZE_REGEXP_def STRING_DASHERIZE_REGEXP_def)
qed

theorem underscore_dasherize_idempotent_witness:
  "lower_settled latin1_host
   \<and> (let (v1, st1) = underscore latin1_host (exec_all latin1_host initial_caches [])
                        (0xC9 # js ''tatMajor-x y'');
          (v2, st2) = underscore latin1_host st1 v1
      in v2 = v1)
   \<and> (let (v1, st1) = dasherize latin1_host (exec_all latin1_host initial_caches [])
                        (0xC9 # js ''tatMajor_x y'');
          (v2, st2) = dasherize latin1_host st1 v1
      in v2 = v1)"
proof -
  have s: "lower_settled latin1_host" by (rule latin1_settled)
  from underscore_dasherize_idempotent [of latin1_host "[]" "0xC9 # js ''tatMajor-x y''"] s
  have "let (v1, st1) = underscore latin1_host (exec_all latin1_host initial_caches [])
                        (0xC9 # js ''tatMajor-x y'');
          (v2, st2) = underscore latin1_host st1 v1
      in v2 = v1" by blast
  moreover
  from underscore_dasherize_idempotent [of latin1_host "[]" "0xC9 # js ''tatMajor_x y''"] s
  have "let (v1, st1) = dasherize latin1_host (exec_all latin1_host initial_caches [])
                        (0xC9 # js ''tatMajor_x y'');
          (v2, st2) = dasherize latin1_host st1 v1
      in v2 = v1" by blast
  ultimately show ?thesis using s by blast
qed


section \<open>Segments of a path\<close>

lemma split_on_nonempty: "split_on d s \<noteq> []"
  by (induction s) (auto split: list.splits)

lemma split_on_plain: "d \<notin> set s \<Longrightarrow> split_on d s = [s]"
  by (induction s) auto

lemma split_on_append: "split_on d (a @ d # b) = split_on d a @ split_on d b"
proof (induction a)
  case Nil
  show ?case by simp
next
  case (Cons c a)
  obtain p ps where "split_on d a = p # ps"
    using split_on_nonempty [of d a] by (cases "split_on d a") auto
  with Cons show ?case by simp
qed

lemma join_append:
  "ps \<noteq> [] \<Longrightarrow> qs \<noteq> [] \<Longrightarrow> join sep (ps @ qs) = join sep ps @ sep @ join sep qs"
proof (induction sep ps rule: join.induct)
  case (2 sep p)
  then show ?case by (cases qs) simp_all
qed simp_all

lemma segmentwise:
  assumes hom: "\<And>a b. f (a @ d # b) = f a @ d # f b"
  shows "f s = join [d] (map f (split_on d s))"
proof (induction "length s" arbitrary: s rule: less_induct)
  case less
  show ?case
  proof (cases "d \<in> set s")
    case False
    then show ?thesis by (simp add: split_on_plain)
  next
    case True
    then obtain a b where s: "s = a @ d # b" and a: "d \<notin> set a"
      by (auto dest: split_list_first)
    obtain q qs where q: "split_on d b = q # qs"
      using split_on_nonempty [of d b] by (cases "split_on d b") auto
    have "f b = join [d] (map f (split_on d b))"
      by (rule less) (simp add: s)
    with q show ?thesis
      by (simp add: s split_on_append split_on_plain [OF a] hom)
  qed
qed

lemma replace_start:
  "(\<And>t. re st t = re st' t) \<Longrightarrow> replace_all_from re fn st s = replace_all_from re fn st' s"
  by (cases s) (simp_all add: replace_all_from_def scan.simps)

lemma rtc_Nil: "run_then_char sep [] = None"
  by (simp add: run_then_char_def)

lemma rtc_None: "\<not> sep c \<Longrightarrow> run_then_char sep (c # t) = None"
  by (simp add: run_then_char_def)

lemma rtc_more:
  "sep c \<Longrightarrow> dropWhile sep (c # t) = x # r \<Longrightarrow> is_dot x \<Longrightarrow>
   run_then_char sep (c # t)
     = Some (length (takeWhile sep (c # t)) + 1, [last (takeWhile sep (c # t))], Some [x])"
  by (simp add: run_then_char_def Let_def)

lemma rtc_end:
  assumes "sep c" and "dropWhile sep (c # t) = []"
  shows "run_then_char sep (c # t) = Some (length (c # t), [last (c # t)], None)"
proof -
  have tw: "takeWhile sep (c # t) = c # t"
    using assms(2) by (metis append_Nil2 takeWhile_dropWhile_id)
  show ?thesis
    unfolding run_then_char_def Let_def tw assms(2) by simp
qed

lemma separator_not_slash: "\<not> is_separator (cu CHR ''/'')"
  by (simp add: class_defs)

lemma dot_slash: "is_dot (cu CHR ''/'')"
  by (simp add: class_defs)

lemma not_separator_dot: "\<not> is_separator x \<Longrightarrow> is_dot x"
  by (auto simp: class_defs)

lemma camel1_start: "camel1 h st s = camel1 h st' s"
  unfolding camel1_def by (rule replace_start) (simp add: STRING_CAMELIZE_REGEXP_1_def)

lemma camel1_Nil: "camel1 h st [] = []"
  unfolding camel1_def by (rule replace_Nil) (simp add: STRING_CAMELIZE_REGEXP_1_def rtc_Nil)

lemma camel1_skip: "\<not> is_separator c \<Longrightarrow> camel1 h st (c # t) = c # camel1 h False t"
  unfolding camel1_def by (rule replace_None) (simp add: STRING_CAMELIZE_REGEXP_1_def rtc_None)

lemma camel1_more:
  assumes "is_separator c" and "dropWhile is_separator (c # t) = x # r"
  shows "camel1 h st (c # t) = upper_cu h x @ camel1 h False r"
proof -
  let ?n = "length (takeWhile is_separator (c # t))"
  have x: "\<not> is_separator x"
    using hd_dropWhile [of is_separator "c # t"] assms(2) by simp
  have m: "STRING_CAMELIZE_REGEXP_1 st (c # t)
      = Some (?n + 1, [last (takeWhile is_separator (c # t))], Some [x])"
    unfolding STRING_CAMELIZE_REGEXP_1_def using assms not_separator_dot [OF x] by (rule rtc_more)
  have d: "drop ?n (c # t) = x # r"
    unfolding dropWhile_eq_drop [symmetric] by (rule assms(2))
  have "drop (Suc ?n) (c # t) = tl (drop ?n (c # t))"
    by (simp only: tl_drop drop_Suc)
  with d have d1: "drop (?n + 1) (c # t) = r" by simp
  from replace_Some [of STRING_CAMELIZE_REGEXP_1 st c t "?n + 1" _ _, OF m] d1
  show ?thesis by (simp add: camel1_def toUpperCase_one del: takeWhile.simps take_Suc_Cons)
qed

lemma camel1_end:
  assumes "is_separator c" and "dropWhile is_separator (c # t) = []"
  shows "camel1 h st (c # t) = []"
proof -
  have m: "STRING_CAMELIZE_REGEXP_1 st (c # t) = Some (length (c # t), [last (c # t)], None)"
    unfolding STRING_CAMELIZE_REGEXP_1_def using assms by (rule rtc_end)
  from replace_Some [of STRING_CAMELIZE_REGEXP_1 st c t "length (c # t)" _ _, OF m]
  show ?thesis using camel1_Nil [of h False] by (simp add: camel1_def)
qed

lemma camel1_segment:
  "camel1 h st (a @ cu CHR ''/'' # b) = camel1 h st a @ cu CHR ''/'' # camel1 h True b"
proof (induction "length a" arbitrary: a st rule: less_induct)
  case less
  show ?case
  proof (cases a)
    case Nil
    then show ?thesis
      using camel1_skip [OF separator_not_slash, of h st b] camel1_start [of h False b True]
      by (simp add: camel1_Nil)
  next
    case (Cons c t)
    note a = Cons
    have dw: "dropWhile is_separator (c # t @ cu CHR ''/'' # b)
                = dropWhile is_separator (c # t) @ cu CHR ''/'' # b"
      using dropWhile_append3 [of is_separator "cu CHR ''/''" "c # t" b] separator_not_slash
      by simp
    show ?thesis
    proof (cases "is_separator c")
      case False
      with a less [of t False] show ?thesis by (simp add: camel1_skip)
    next
      case True
      show ?thesis
      proof (cases "dropWhile is_separator (c # t)")
        case Nil
        with dw have "dropWhile is_separator (c # t @ cu CHR ''/'' # b) = cu CHR ''/'' # b"
          by simp
        from camel1_more [OF True this, of h st]
        have "camel1 h st (c # t @ cu CHR ''/'' # b) = cu CHR ''/'' # camel1 h False b"
          by (simp add: upper_cu_slash)
        with a camel1_end [OF True Nil, of h st] camel1_start [of h False b True]
        show ?thesis by simp
      next
        case (Cons x r)
        with dw have "dropWhile is_separator (c # t @ cu CHR ''/'' # b)
                        = x # r @ cu CHR ''/'' # b"
          by simp
        from camel1_more [OF True this, of h st]
        have w: "camel1 h st (c # t @ cu CHR ''/'' # b)
                   = upper_cu h x @ camel1 h False (r @ cu CHR ''/'' # b)" .
        have "length (dropWhile is_separator (c # t)) \<le> length (c # t)"
          by (rule length_dropWhile_le)
        with Cons a have "length r < length a" by simp
        from less [OF this, of False] w camel1_more [OF True Cons, of h st] a
        show ?thesis by simp
      qed
    qed
  qed
qed


lemma toLowerCase_AZ: "is_AZ a \<Longrightarrow> toLowerCase h [a] = [ascii_lower a]"
  by (simp add: toLowerCase_def is_ascii_def class_defs)

lemma toLowerCase_slash_AZ:
  "is_AZ b \<Longrightarrow> toLowerCase h [cu CHR ''/'', b] = [cu CHR ''/'', ascii_lower b]"
  by (simp add: toLowerCase_def is_ascii_def ascii_lower_def class_defs)

lemma camelize_func_alt:
  "camelize_func h s
     = initials (\<lambda>c. c = cu CHR ''/'') is_AZ (\<lambda>c. [ascii_lower c]) True (camel1 h True s)"
proof -
  have "replace_all_from (start_or_after (\<lambda>c. c = cu CHR ''/'') is_AZ)
          (\<lambda>m g. toLowerCase h m) True (camel1 h True s)
        = initials (\<lambda>c. c = cu CHR ''/'') is_AZ (\<lambda>c. [ascii_lower c]) True (camel1 h True s)"
  proof (rule initials_scan)
    fix c assume "c = cu CHR ''/''"
    then show "\<not> is_AZ c" by (simp add: class_defs)
  next
    fix a :: nat and g :: "jstr \<times> jstr"
    assume "is_AZ a"
    then show "toLowerCase h [a] = [ascii_lower a]" by (rule toLowerCase_AZ)
  next
    fix a b :: nat and g :: "jstr \<times> jstr"
    assume "a = cu CHR ''/''" and "is_AZ b"
    then show "toLowerCase h [a, b] = a # [ascii_lower b]"
      by (simp add: toLowerCase_slash_AZ)
  qed
  then show ?thesis
    by (simp add: camelize_func_def replace_g_def STRING_CAMELIZE_REGEXP_2_def camel1_def)
qed

lemma camelize_func_segment:
  "camelize_func h (a @ cu CHR ''/'' # b)
     = camelize_func h a @ cu CHR ''/'' # camelize_func h b"
  unfolding camelize_func_alt camel1_segment
  by (rule initials_segment) (simp_all add: class_defs)

lemma classify_parts_segment:
  "classify_parts h (a @ cu CHR ''/'' # b)
     = classify_parts h a @ cu CHR ''/'' # classify_parts h b"
  by (simp add: classify_parts_def split_on_append join_append split_on_nonempty js_simps)

lemma classify_func_alt:
  "classify_func h s
     = initials (\<lambda>c. c = cu CHR ''/'' \<or> c = cu CHR ''.'') is_az (upper_cu h) True
         (classify_parts h s)"
proof -
  have "replace_all_from (start_or_after (\<lambda>c. c = cu CHR ''/'' \<or> c = cu CHR ''.'') is_az)
          (\<lambda>m g. toUpperCase h m) True (classify_parts h s)
        = initials (\<lambda>c. c = cu CHR ''/'' \<or> c = cu CHR ''.'') is_az (upper_cu h) True
            (classify_parts h s)"
  proof (rule initials_scan)
    fix c assume "c = cu CHR ''/'' \<or> c = cu CHR ''.''"
    then show "\<not> is_az c" by (auto simp: class_defs)
  next
    fix a :: nat and g :: "jstr \<times> jstr"
    show "toUpperCase h [a] = upper_cu h a" by (rule toUpperCase_one)
  next
    fix a b :: nat and g :: "jstr \<times> jstr"
    assume "a = cu CHR ''/'' \<or> a = cu CHR ''.''"
    then show "toUpperCase h [a, b] = a # upper_cu h b"
      by (auto simp: toUpperCase_two slash_no_surrogate dot_no_surrogate upper_cu_slash
          upper_cu_dot)
  qed
  then show ?thesis
    by (simp add: classify_func_def replace_g_def STRING_CLASSIFY_REGEXP_3_def
        classify_parts_def)
qed

lemma classify_func_segment:
  "classify_func h (a @ cu CHR ''/'' # b)
     = classify_func h a @ cu CHR ''/'' # classify_func h b"
  unfolding classify_func_alt classify_parts_segment
  by (rule initials_segment) (simp_all add: class_defs)

lemma js_slash: "js ''/'' = [cu CHR ''/'']"
  by (simp add: js_simps)

text \<open>
  C8. In any reachable state of the caches, \<^verbatim>\<open>classify\<close> and \<^verbatim>\<open>camelize\<close> work segment
  by segment: the result for a string is the results for its \<^verbatim>\<open>/\<close>-separated segments,
  joined with \<^verbatim>\<open>/\<close> again. In particular \<^verbatim>\<open>classify('private-docs/owner-invoice')\<close> is
  \<^verbatim>\<open>'PrivateDocs/OwnerInvoice'\<close> and \<^verbatim>\<open>camelize('private-docs/owner-invoice')\<close> is
  \<^verbatim>\<open>'privateDocs/ownerInvoice'\<close>.
\<close>

theorem classify_camelize_segmentwise:
  "fst (classify h (exec_all h initial_caches calls) s)
     = join (js ''/'')
         (map (\<lambda>p. fst (classify h (exec_all h initial_caches calls) p))
            (split_on (cu CHR ''/'') s))
   \<and> fst (camelize h (exec_all h initial_caches calls) s)
     = join (js ''/'')
         (map (\<lambda>p. fst (camelize h (exec_all h initial_caches calls) p))
            (split_on (cu CHR ''/'') s))
   \<and> fst (classify h (exec_all h initial_caches calls) (js ''private-docs/owner-invoice''))
       = js ''PrivateDocs/OwnerInvoice''
   \<and> fst (camelize h (exec_all h initial_caches calls) (js ''private-docs/owner-invoice''))
       = js ''privateDocs/ownerInvoice''"
proof (intro conjI)
  show "fst (classify h (exec_all h initial_caches calls) s)
     = join (js ''/'')
         (map (\<lambda>p. fst (classify h (exec_all h initial_caches calls) p))
            (split_on (cu CHR ''/'') s))"
    unfolding classify_value js_slash
    by (rule segmentwise) (rule classify_func_segment)
  show "fst (camelize h (exec_all h initial_caches calls) s)
     = join (js ''/'')
         (map (\<lambda>p. fst (camelize h (exec_all h initial_caches calls) p))
            (split_on (cu CHR ''/'') s))"
    unfolding camelize_value js_slash
    by (rule segmentwise) (rule camelize_func_segment)
  show "fst (classify h (exec_all h initial_caches calls) (js ''private-docs/owner-invoice''))
       = js ''PrivateDocs/OwnerInvoice''"
    by (simp add: classify_value classify_func_def classify_part_def replace_1_def
        replace_eval STRING_CLASSIFY_REGEXP_1_def STRING_CLASSIFY_REGEXP_2_def
        STRING_CLASSIFY_REGEXP_3_def start_or_after_def run_then_char_def)
  show "fst (camelize h (exec_all h initial_caches calls) (js ''private-docs/owner-invoice''))
       = js ''privateDocs/ownerInvoice''"
    by (simp add: camelize_value camelize_func_def replace_eval
        STRING_CAMELIZE_REGEXP_1_def STRING_CAMELIZE_REGEXP_2_def start_or_after_def
        run_then_char_def)
qed


end
